theory Spec2Isabelle
  imports Complex_Main "HOL-Library.Word" "HOL-Library.Multiset"
begin

unbundle bit_operations_syntax

section \<open>Common definitions\<close>

text \<open>The Python exceptions that the modelled code raises or lets escape.\<close>

datatype error = ValueError | RuntimeError | LinAlgError | BlockingIOError | OSError
  | KeyError | ZeroDivisionError | IndexError | AttributeError | StructError

text \<open>
  Python slice bounds: a negative bound counts from the end, and every bound is clamped
  to the sequence. \<open>py_from xs a\<close> is \<open>xs[a:]\<close> and \<open>py_upto xs b\<close> is \<open>xs[:b]\<close>.
\<close>

definition py_bound :: "nat \<Rightarrow> int \<Rightarrow> nat" where
  "py_bound len i = (if i < 0 then nat (int len + i) else min (nat i) len)"

definition py_from :: "'a list \<Rightarrow> int \<Rightarrow> 'a list" where
  "py_from xs a = drop (py_bound (length xs) a) xs"

definition py_upto :: "'a list \<Rightarrow> int \<Rightarrow> 'a list" where
  "py_upto xs b = take (py_bound (length xs) b) xs"

section \<open>RingBuffer (eeg\_worker.py)\<close>

text \<open>
  The buffer is a \<open>maxlen \<times> n_channels\<close> array; a row is the list of one sample's
  channel values. \<open>idx\<close> is the write cursor and \<open>full\<close> the has-wrapped flag.
\<close>

record 'a RingBuffer =
  n_channels :: nat
  maxlen :: nat
  buf :: "'a list list"
  idx :: nat
  full :: bool

definition RingBuffer_init :: "nat \<Rightarrow> nat \<Rightarrow> ('a::zero) RingBuffer" where
  "RingBuffer_init c m =
     \<lparr>n_channels = c, maxlen = m, buf = replicate m (replicate c 0), idx = 0, full = False\<rparr>"

text \<open>
  A slice assignment \<open>buf[a:b, :] = rows\<close> needs the rows to have the buffer's width;
  numpy broadcasts rows of width 1 and raises ValueError for any other width.
  The chunk is the 2-D array after \<open>reshape(1, -1)\<close> of a 1-D sample.
\<close>

definition conform :: "nat \<Rightarrow> 'a list list \<Rightarrow> error + 'a list list" where
  "conform c rows =
     (if list_all (\<lambda>r. length r = c) rows then Inr rows
      else if list_all (\<lambda>r. length r = 1) rows then Inr (map (\<lambda>r. replicate c (hd r)) rows)
      else Inl ValueError)"

definition append_samples :: "'a RingBuffer \<Rightarrow> 'a list list \<Rightarrow> error + 'a RingBuffer" where
  "append_samples rb samples =
     (let n = length samples in
      if n = 0 then Inr rb
      else case conform (n_channels rb) samples of
        Inl e \<Rightarrow> Inl e
      | Inr rows \<Rightarrow>
          if n > maxlen rb then
            \<comment> \<open>\<open>samples[-maxlen:]\<close>; with \<open>maxlen = 0\<close> this is \<open>samples[0:]\<close>, the whole chunk,
                which only a single row can be broadcast into the empty buffer\<close>
            (let tl_rows = py_from rows (- int (maxlen rb)) in
             if length tl_rows = maxlen rb \<or> length tl_rows = 1
             then Inr (rb\<lparr>buf := (if length tl_rows = maxlen rb then tl_rows else buf rb),
                         idx := 0, full := True\<rparr>)
             else Inl ValueError)
          else
            (let remain = maxlen rb - idx rb;
                 rb1 = (if n \<le> remain
                        then rb\<lparr>buf := take (idx rb) (buf rb) @ rows @ drop (idx rb + n) (buf rb),
                                idx := idx rb + n\<rparr>
                        else
                          (let b1 = take (idx rb) (buf rb) @ take remain rows;
                               overflow = n - remain;
                               b2 = drop remain rows @ drop overflow b1
                           in rb\<lparr>buf := b2, idx := overflow, full := True\<rparr>))
             in Inr (if idx rb1 \<ge> maxlen rb1 then rb1\<lparr>idx := 0, full := True\<rparr> else rb1)))"

text \<open>
  \<open>get_last(n)\<close> for \<open>n \<ge> 0\<close> (a negative \<open>n\<close> gives the empty array, as \<open>n = 0\<close> does).
  The start of the first part, \<open>idx - n + maxlen\<close>, is negative when \<open>n\<close> exceeds
  \<open>idx + maxlen\<close>.
\<close>

definition get_last :: "'a RingBuffer \<Rightarrow> nat \<Rightarrow> 'a list list option" where
  "get_last rb n =
     (if \<not> full rb \<and> idx rb < n then None
      else if idx rb \<ge> n then Some (take n (drop (idx rb - n) (buf rb)))
      else
        (let part1 = py_from (buf rb) (int (idx rb) - int n + int (maxlen rb));
             part2 = take (idx rb) (buf rb)
         in Some (part1 @ part2)))"

text \<open>A session: the chunks are appended one after the other; an exception ends it.\<close>

fun append_all :: "'a RingBuffer \<Rightarrow> 'a list list list \<Rightarrow> error + 'a RingBuffer" where
  "append_all rb [] = Inr rb"
| "append_all rb (c # cs) = (case append_samples rb c of Inl e \<Rightarrow> Inl e | Inr rb' \<Rightarrow> append_all rb' cs)"

text \<open>The \<open>m\<close> most recent elements of a stream, oldest first.\<close>

definition lastn :: "nat \<Rightarrow> 'a list \<Rightarrow> 'a list" where
  "lastn m xs = drop (length xs - m) xs"

text \<open>
  What the buffer holds after the rows \<open>xs\<close> have been appended: before the first wrap
  the rows themselves, from position 0; afterwards the last \<open>maxlen\<close> rows, the oldest
  at the cursor.
\<close>

definition rb_inv :: "'a RingBuffer \<Rightarrow> 'a list list \<Rightarrow> bool" where
  "rb_inv rb xs \<longleftrightarrow>
     0 < maxlen rb \<and> length (buf rb) = maxlen rb \<and> idx rb < maxlen rb \<and>
     (if full rb
      then maxlen rb \<le> length xs \<and> drop (idx rb) (buf rb) @ take (idx rb) (buf rb) = lastn (maxlen rb) xs
      else length xs = idx rb \<and> take (idx rb) (buf rb) = xs)"

section \<open>Calibration capture (eeg\_module.py)\<close>

text \<open>
  \<open>_capture_state\<close> is \<open>None\<close> (Idle) or a dict with the five keys below (Capturing);
  \<open>_train_samples\<close> is a dict from the class label to its list of trial windows.
  \<open>samples_needed\<close> is \<open>int(win_len * srate)\<close>, computed by the caller here.
  The progress-bar percentage is not part of the state, but its division by \<open>needed\<close>
  is: with \<open>needed = 0\<close> it raises after the window has been stored.
\<close>

record 'a capture =
  target :: string
  needed :: int
  collected :: int
  samples_needed :: int
  buffer :: "'a list list"

record 'a EEGModule =
  capture_state :: "'a capture option"
  train_samples :: "string \<rightharpoonup> 'a list list list"

definition start_capture :: "'a EEGModule \<Rightarrow> string \<Rightarrow> int \<Rightarrow> int \<Rightarrow> 'a EEGModule" where
  "start_capture m tgt samples cnt =
     (if capture_state m \<noteq> None then m
      else m\<lparr>capture_state :=
               Some \<lparr>target = tgt, needed = cnt, collected = 0,
                     samples_needed = samples, buffer = []\<rparr>,
             train_samples := (train_samples m)(tgt \<mapsto> [])\<rparr>)"

text \<open>
  The loop over the rows of one chunk. A full buffer becomes the window
  \<open>np.array(buffer).T\<close>; \<open>_finish_capture\<close> sets the state to \<open>None\<close> and the
  \<open>break\<close> drops the rest of the chunk. The result is the new capture state, the new
  trial sets and the exception, if one was raised.
\<close>

fun capture_rows ::
  "'a capture \<Rightarrow> (string \<rightharpoonup> 'a list list list) \<Rightarrow> 'a list list \<Rightarrow>
     'a capture option \<times> (string \<rightharpoonup> 'a list list list) \<times> error option" where
  "capture_rows st ts [] = (Some st, ts, None)"
| "capture_rows st ts (r # rs) =
     (let st1 = st\<lparr>buffer := buffer st @ [r]\<rparr> in
      if int (length (buffer st1)) \<ge> samples_needed st1 then
        (case ts (target st1) of
           None \<Rightarrow> (Some st1, ts, Some KeyError)
         | Some trials \<Rightarrow>
             (let seg = transpose (buffer st1);
                  ts2 = ts(target st1 \<mapsto> trials @ [seg]);
                  st2 = st1\<lparr>buffer := [], collected := collected st1 + 1\<rparr>
              in if needed st2 = 0 then (Some st2, ts2, Some ZeroDivisionError)
                 else if collected st2 \<ge> needed st2 then (None, ts2, None)
                 else capture_rows st2 ts2 rs))
      else capture_rows st1 ts rs)"

definition process_capture_chunk :: "'a EEGModule \<Rightarrow> 'a list list \<Rightarrow> 'a EEGModule \<times> error option" where
  "process_capture_chunk m chunk =
     (case capture_state m of
        None \<Rightarrow> (m, None)
      | Some st \<Rightarrow>
          (case capture_rows st (train_samples m) chunk of
             (st', ts', e) \<Rightarrow> (m\<lparr>capture_state := st', train_samples := ts'\<rparr>, e)))"

definition on_worker_samples :: "'a EEGModule \<Rightarrow> 'a list list \<Rightarrow> 'a EEGModule \<times> error option" where
  "on_worker_samples m chunk =
     (if capture_state m \<noteq> None then process_capture_chunk m chunk else (m, None))"

text \<open>The chunk events of a session, delivered in order; an exception ends the run.\<close>

fun feed_chunks :: "'a EEGModule \<Rightarrow> 'a list list list \<Rightarrow> 'a EEGModule \<times> error option" where
  "feed_chunks m [] = (m, None)"
| "feed_chunks m (c # cs) =
     (case on_worker_samples m c of
        (m', Some e) \<Rightarrow> (m', Some e)
      | (m', None) \<Rightarrow> feed_chunks m' cs)"

text \<open>The first \<open>k\<close> consecutive windows of \<open>S\<close> rows of a stream.\<close>

definition windows :: "nat \<Rightarrow> nat \<Rightarrow> 'a list \<Rightarrow> 'a list list" where
  "windows k S xs = map (\<lambda>i. take S (drop (i * S) xs)) [0..<k]"

text \<open>
  The state of a capture with window size \<open>S\<close> and \<open>N\<close> trials after the rows
  \<open>xs\<close> have arrived, in closed form.
\<close>

definition capture_after :: "'a EEGModule \<Rightarrow> string \<Rightarrow> nat \<Rightarrow> nat \<Rightarrow> 'a list list \<Rightarrow> 'a EEGModule" where
  "capture_after m tgt S N xs =
     (let q = length xs div S in
      if N \<le> q
      then m\<lparr>capture_state := None,
             train_samples := (train_samples m)(tgt \<mapsto> map transpose (windows N S xs))\<rparr>
      else m\<lparr>capture_state :=
               Some \<lparr>target = tgt, needed = int N, collected = int q,
                     samples_needed = int S, buffer = drop (q * S) xs\<rparr>,
             train_samples := (train_samples m)(tgt \<mapsto> map transpose (windows q S xs))\<rparr>)"

section \<open>Signal filters (dsp.py)\<close>

text \<open>
  Floats are idealised as reals. A 2-D array is the list of its rows; \<open>data\<close> may be
  \<open>None\<close>. The scipy routines \<open>signal.butter\<close>, \<open>signal.iirnotch\<close> and
  \<open>signal.filtfilt\<close> are parameters: each returns its result or raises.
\<close>

datatype btype = Band | Low | High

datatype Wn = Cutoffs real real | Cutoff real

type_synonym array2 = "real list list"
type_synonym coeffs = "real list \<times> real list"

record signal =
  butter :: "int \<Rightarrow> Wn \<Rightarrow> btype \<Rightarrow> error + coeffs"
  iirnotch :: "real \<Rightarrow> real \<Rightarrow> error + coeffs"
  filtfilt :: "coeffs \<Rightarrow> array2 \<Rightarrow> int \<Rightarrow> error + array2"

definition array_size :: "'a list list \<Rightarrow> nat" where
  "array_size d = length (concat d)"

text \<open>
  Python truth of an optional cutoff: \<open>None\<close> and \<open>0.0\<close> are false. The result is the
  cutoff when it is true.
\<close>

definition truthy :: "real option \<Rightarrow> real option" where
  "truthy f = (case f of None \<Rightarrow> None | Some v \<Rightarrow> if v = 0 then None else Some v)"

text \<open>
  The mode selection of \<open>butter_filter\<close>: the \<open>if/elif\<close> chain either returns the data
  as it is (\<open>None\<close>) or fixes \<open>btype\<close> and \<open>Wn\<close>.
\<close>

definition select_filter :: "real \<Rightarrow> real option \<Rightarrow> real option \<Rightarrow> (btype \<times> Wn) option" where
  "select_filter fs f_low f_high =
     (let nyq = 0.5 * fs in
      case (truthy f_low, truthy f_high) of
        (Some l, Some h) \<Rightarrow> if l \<ge> h \<or> h \<ge> nyq then None else Some (Band, Cutoffs (l / nyq) (h / nyq))
      | (_, Some h) \<Rightarrow> if h \<ge> nyq then None else Some (Low, Cutoff (h / nyq))
      | (Some l, None) \<Rightarrow> if l \<ge> nyq then None else Some (High, Cutoff (l / nyq))
      | (None, None) \<Rightarrow> None)"

text \<open>The \<open>try\<close> block: design the filter and apply it forward and backward.\<close>

definition design_and_apply :: "signal \<Rightarrow> int \<Rightarrow> btype \<Rightarrow> Wn \<Rightarrow> array2 \<Rightarrow> int \<Rightarrow> error + array2" where
  "design_and_apply sg order bt wn d axis =
     (case butter sg order wn bt of
        Inl e \<Rightarrow> Inl e
      | Inr ba \<Rightarrow> filtfilt sg ba d axis)"

definition butter_filter ::
  "signal \<Rightarrow> array2 option \<Rightarrow> real \<Rightarrow> real option \<Rightarrow> real option \<Rightarrow> int \<Rightarrow> int \<Rightarrow> array2 option" where
  "butter_filter sg data fs f_low f_high order axis =
     (if fs \<le> 0 then data
      else case data of
        None \<Rightarrow> data
      | Some d \<Rightarrow>
          if array_size d = 0 then data
          else case select_filter fs f_low f_high of
            None \<Rightarrow> data
          | Some (bt, wn) \<Rightarrow>
              (case design_and_apply sg order bt wn d axis of
                 Inl e \<Rightarrow> data
               | Inr y \<Rightarrow> Some y))"

definition notch_filter ::
  "signal \<Rightarrow> array2 option \<Rightarrow> real \<Rightarrow> real \<Rightarrow> real \<Rightarrow> int \<Rightarrow> array2 option" where
  "notch_filter sg data fs freq Q axis =
     (if fs \<le> 0 then data
      else case data of
        None \<Rightarrow> data
      | Some d \<Rightarrow>
          if array_size d = 0 then data
          else
            (let w0 = freq / (fs / 2) in
             if w0 \<ge> 1 \<or> w0 \<le> 0 then data
             else case iirnotch sg w0 Q of
               Inl e \<Rightarrow> data
             | Inr ba \<Rightarrow>
                 (case filtfilt sg ba d axis of
                    Inl e \<Rightarrow> data
                  | Inr y \<Rightarrow> Some y)))"

section \<open>CSP (models.py)\<close>

text \<open>
  Floats are idealised as reals; where numpy produces NaN or an infinity (a division by
  zero, the logarithm of zero) the real value of the model has no meaning. An array is
  kept with its number of dimensions: nested lists up to three dimensions (a dimension
  of size zero keeps no record of the dimensions after it), and only the count for four
  or more.
\<close>

datatype ndarray =
    A0 real
  | A1 "real list"
  | A2 "real list list"
  | A3 "real list list list"
  | A4plus nat

fun ndim :: "ndarray \<Rightarrow> nat" where
  "ndim (A0 x) = 0"
| "ndim (A1 xs) = 1"
| "ndim (A2 rows) = 2"
| "ndim (A3 ts) = 3"
| "ndim (A4plus k) = 4 + k"

type_synonym matrix = "real list list"

text \<open>
  What the code calls outside this repository or what no claim is about:
  \<open>scipy.linalg.eigh(A, B)\<close>, returning the eigenvalues in ascending order and the
  matrix whose columns are the eigenvectors, or raising; the legacy \<open>_fit_loop\<close>
  backend; and the features of an array of four or more dimensions, whose contents the
  model does not keep.
\<close>

record linalg =
  eigh :: "matrix \<Rightarrow> matrix \<Rightarrow> error + (real list \<times> matrix)"
  fit_loop :: "real list list list \<Rightarrow> int list \<Rightarrow> int list \<Rightarrow> error + matrix"
  transform_4plus :: "matrix \<Rightarrow> int \<Rightarrow> nat \<Rightarrow> error + matrix"

text \<open>The attributes \<open>patterns_\<close>, \<open>mean_\<close> and \<open>std_\<close> are never written; \<open>filters\<close> is \<open>filters_\<close>.\<close>

record CSP =
  n_components :: int
  backend :: string
  filters :: "matrix option"

definition CSP_init :: "int \<Rightarrow> string \<Rightarrow> CSP" where
  "CSP_init n b = \<lparr>n_components = n, backend = b, filters = None\<rparr>"

definition mean :: "real list \<Rightarrow> real" where
  "mean xs = sum_list xs / real (length xs)"

definition inner :: "real list \<Rightarrow> real list \<Rightarrow> real" where
  "inner xs ys = sum_list (map2 (*) xs ys)"

definition mat_zeros :: "nat \<Rightarrow> matrix" where
  "mat_zeros n = replicate n (replicate n 0)"

definition mat_add :: "matrix \<Rightarrow> matrix \<Rightarrow> matrix" where
  "mat_add A B = map2 (map2 (+)) A B"

definition mat_div :: "matrix \<Rightarrow> real \<Rightarrow> matrix" where
  "mat_div A k = map (map (\<lambda>x. x / k)) A"

definition trace :: "matrix \<Rightarrow> real" where
  "trace A = sum_list (map (\<lambda>i. A ! i ! i) [0..<length A])"

text \<open>\<open>trial - trial.mean(axis=1, keepdims=True)\<close>\<close>

definition center :: "matrix \<Rightarrow> matrix" where
  "center trial = map (\<lambda>row. map (\<lambda>x. x - mean row) row) trial"

text \<open>\<open>np.dot(trial, trial.T)\<close>\<close>

definition gram :: "matrix \<Rightarrow> matrix" where
  "gram A = map (\<lambda>r. map (\<lambda>s. inner r s) A) A"

text \<open>The body of the inner loop of \<open>_fit_vectorized\<close>: one trial's normalised covariance.\<close>

definition trial_cov :: "matrix \<Rightarrow> matrix" where
  "trial_cov trial = (let t = center trial; c = gram t in mat_div c (trace c))"

text \<open>\<open>X[y == cls]\<close>, for \<open>y\<close> as long as \<open>X\<close>\<close>

definition select_class :: "'a list \<Rightarrow> int list \<Rightarrow> int \<Rightarrow> 'a list" where
  "select_class X y cls = map fst (filter (\<lambda>p. snd p = cls) (zip X y))"

text \<open>The loop over the trials of one class, accumulating \<open>C_sum\<close>, and the average.\<close>

definition class_cov :: "nat \<Rightarrow> matrix list \<Rightarrow> matrix" where
  "class_cov n X_cls =
     mat_div (foldl (\<lambda>C_sum trial. mat_add C_sum (trial_cov trial)) (mat_zeros n) X_cls)
             (real (length X_cls))"

text \<open>
  \<open>np.argsort\<close>: the indices that sort the keys in ascending order (the order of equal
  keys is that of a stable sort, which numpy's default is for short arrays).
\<close>

definition argsort :: "real list \<Rightarrow> nat list" where
  "argsort ks = sort_key (\<lambda>i. ks ! i) [0..<length ks]"

definition column :: "matrix \<Rightarrow> nat \<Rightarrow> real list" where
  "column M j = map (\<lambda>r. r ! j) M"

definition unique :: "int list \<Rightarrow> int list" where
  "unique y = sort (remdups y)"

definition fit_vectorized :: "linalg \<Rightarrow> int \<Rightarrow> matrix list \<Rightarrow> int list \<Rightarrow> int list \<Rightarrow> error + matrix" where
  "fit_vectorized la ncomp X y classes =
     (if length y \<noteq> length X then Inl IndexError
      else
        (let n_ch = (case X of [] \<Rightarrow> 0 | t # _ \<Rightarrow> length t);
             covs = map (\<lambda>cls. class_cov n_ch (select_class X y cls)) classes
         in case covs of
              cov0 # cov1 # _ \<Rightarrow>
                (let cov_combined = mat_add cov0 cov1 in
                 case eigh la cov0 cov_combined of
                   Inl e \<Rightarrow> Inl e
                 | Inr (eigvals, eigvecs) \<Rightarrow>
                     (let ix = rev (argsort (map abs eigvals));
                          cols = map (column eigvecs) ix;
                          m = ncomp div 2;
                          filters_top = py_upto cols m;
                          filters_bot = py_from cols (- m)
                      in Inr (filters_top @ filters_bot)))
            | _ \<Rightarrow> Inl IndexError))"

definition fit :: "linalg \<Rightarrow> CSP \<Rightarrow> ndarray \<Rightarrow> int list \<Rightarrow> error + CSP" where
  "fit la csp X y =
     (case X of
        A3 trials \<Rightarrow>
          (let classes = unique y in
           if length classes \<noteq> 2 then Inl ValueError
           else case (if backend csp = ''loop''
                      then fit_loop la trials y classes
                      else fit_vectorized la (n_components csp) trials y classes) of
                  Inl e \<Rightarrow> Inl e
                | Inr W \<Rightarrow> Inr (csp\<lparr>filters := Some W\<rparr>))
      | _ \<Rightarrow> Inl ValueError)"

text \<open>\<open>np.var(Z, axis=1)\<close> of one row (the population variance)\<close>

definition var :: "real list \<Rightarrow> real" where
  "var zs = mean (map (\<lambda>z. (z - mean zs)\<^sup>2) zs)"

text \<open>
  \<open>np.dot(filters_, trial)\<close> for a 2-D trial: the inner dimensions must agree. The
  columns of the trial are the rows of its transpose.
\<close>

definition dot :: "matrix \<Rightarrow> matrix \<Rightarrow> error + matrix" where
  "dot W trial =
     (if list_all (\<lambda>w. length w = length trial) W
      then Inr (map (\<lambda>w. map (inner w) (transpose trial)) W)
      else Inl ValueError)"

definition log_var :: "matrix \<Rightarrow> real list" where
  "log_var Z = (let v = map var Z in map (\<lambda>x. ln (x / sum_list v)) v)"

text \<open>
  The assignment \<open>feats[i] = row\<close> into a row of \<open>k\<close> entries: a row of \<open>k\<close> values is
  stored, a single value is broadcast, anything else raises.
\<close>

definition assign_row :: "nat \<Rightarrow> real list \<Rightarrow> error + real list" where
  "assign_row k row =
     (if length row = k then Inr row
      else if length row = 1 then Inr (replicate k (hd row))
      else Inl ValueError)"

text \<open>The \<open>for\<close> loop of \<open>transform\<close> from index \<open>i\<close>, over the remaining trials.\<close>

fun transform_loop ::
  "(('a \<Rightarrow> error + matrix)) \<Rightarrow> nat \<Rightarrow> 'a list \<Rightarrow> nat \<Rightarrow> matrix \<Rightarrow> error + matrix" where
  "transform_loop project k [] i feats = Inr feats"
| "transform_loop project k (t # ts) i feats =
     (case project t of
        Inl e \<Rightarrow> Inl e
      | Inr Z \<Rightarrow>
          (case assign_row k (log_var Z) of
             Inl e \<Rightarrow> Inl e
           | Inr row \<Rightarrow> transform_loop project k ts (Suc i) (feats[i := row])))"

text \<open>
  \<open>np.zeros((n_trials, n_components))\<close> raises for a negative dimension. A 1-D input
  is a batch of scalars, each multiplied into the filters by \<open>np.dot\<close>; a 0-D input has
  no \<open>shape[0]\<close>.
\<close>

definition transform_batch ::
  "('a \<Rightarrow> error + matrix) \<Rightarrow> int \<Rightarrow> 'a list \<Rightarrow> error + matrix" where
  "transform_batch project ncomp trials =
     (if ncomp < 0 then Inl ValueError
      else transform_loop project (nat ncomp) trials 0
             (replicate (length trials) (replicate (nat ncomp) 0)))"

definition transform :: "linalg \<Rightarrow> CSP \<Rightarrow> ndarray \<Rightarrow> error + matrix" where
  "transform la csp X =
     (case filters csp of
        None \<Rightarrow> Inl RuntimeError
      | Some W \<Rightarrow>
          (case X of
             A2 trial \<Rightarrow> transform_batch (dot W) (n_components csp) [trial]
           | A3 trials \<Rightarrow> transform_batch (dot W) (n_components csp) trials
           | A1 xs \<Rightarrow> transform_batch (\<lambda>x. Inr (map (map (\<lambda>w. w * x)) W)) (n_components csp) xs
           | A0 x \<Rightarrow> Inl IndexError
           | A4plus k \<Rightarrow> transform_4plus la W (n_components csp) k))"

text \<open>
  The life of one CSP object: the \<open>fit\<close> calls made on it, in order. A call that raises
  leaves the object as it was (\<open>filters_\<close> is assigned by the last statement of either
  backend). The flag tells whether any call has succeeded.
\<close>

fun fit_calls :: "linalg \<Rightarrow> CSP \<Rightarrow> (ndarray \<times> int list) list \<Rightarrow> CSP \<times> bool" where
  "fit_calls la csp [] = (csp, False)"
| "fit_calls la csp ((X, y) # calls) =
     (case fit la csp X y of
        Inl e \<Rightarrow> fit_calls la csp calls
      | Inr csp' \<Rightarrow> (fst (fit_calls la csp' calls), True))"


text \<open>
  The class covariance in the words of the specification, entry by entry: the
  covariance of a trial with each channel's mean removed, divided by its own trace, and
  the average of these over the trials of a class. \<open>n\<close> is the number of channels.
\<close>

definition centered_cov :: "matrix \<Rightarrow> nat \<Rightarrow> nat \<Rightarrow> real" where
  "centered_cov t i j =
     (\<Sum>s<length (t ! i). (t ! i ! s - mean (t ! i)) * (t ! j ! s - mean (t ! j)))"

definition normalized_cov :: "nat \<Rightarrow> matrix \<Rightarrow> nat \<Rightarrow> nat \<Rightarrow> real" where
  "normalized_cov n t i j = centered_cov t i j / (\<Sum>c<n. centered_cov t c c)"

definition average_cov :: "nat \<Rightarrow> matrix list \<Rightarrow> matrix" where
  "average_cov n ts =
     map (\<lambda>i. map (\<lambda>j. (\<Sum>t\<leftarrow>ts. normalized_cov n t i j) / real (length ts)) [0..<n]) [0..<n]"

text \<open>An \<open>n \<times> n\<close> matrix given by its entries.\<close>

definition tabulate :: "nat \<Rightarrow> (nat \<Rightarrow> nat \<Rightarrow> real) \<Rightarrow> matrix" where
  "tabulate n f = map (\<lambda>i. map (\<lambda>j. f i j) [0..<n]) [0..<n]"

section \<open>EEGWorker: prediction and training (eeg\_worker.py)\<close>

text \<open>
  The scikit-learn objects are parameters. A scaler or classifier is a value of an
  abstract type; fitting works in place, so it returns the object as it is left,
  together with the exception if it raised.
\<close>

record ('sc, 'clf) sklearn =
  scaler_fit :: "'sc \<Rightarrow> matrix \<Rightarrow> 'sc \<times> error option"
  scaler_transform :: "'sc \<Rightarrow> matrix \<Rightarrow> error + matrix"
  new_knn :: "'clf"
  new_svc :: "'clf"
  clf_fit :: "'clf \<Rightarrow> matrix \<Rightarrow> int list \<Rightarrow> 'clf \<times> error option"
  has_predict_proba :: "'clf \<Rightarrow> bool"
  predict_proba :: "'clf \<Rightarrow> matrix \<Rightarrow> error + matrix"
  predict :: "'clf \<Rightarrow> matrix \<Rightarrow> error + int list"

record ('sc, 'clf) EEGWorker =
  w_buffer :: "real RingBuffer option"
  srate :: real
  band_pass :: "real \<times> real"
  notch_freq :: real
  model_csp :: "CSP option"
  model_clf :: "'clf option"
  scaler :: 'sc
  model_ready :: bool
  win_size_sec :: real
  last_pred_label :: string

text \<open>Python's \<open>int()\<close> of a float truncates towards zero.\<close>

definition py_int :: "real \<Rightarrow> int" where
  "py_int x = (if x \<ge> 0 then \<lfloor>x\<rfloor> else \<lceil>x\<rceil>)"

text \<open>\<open>a.T\<close> of a 2-D array with \<open>c\<close> columns\<close>

definition transpose2d :: "nat \<Rightarrow> matrix \<Rightarrow> matrix" where
  "transpose2d c rows = map (\<lambda>j. map (\<lambda>r. r ! j) rows) [0..<c]"

text \<open>\<open>np.argmax\<close>: the first index of the maximum; an empty sequence raises.\<close>

definition argmax :: "real list \<Rightarrow> error + nat" where
  "argmax ps =
     (case ps of
        [] \<Rightarrow> Inl ValueError
      | _ \<Rightarrow> Inr (hd (filter (\<lambda>i. ps ! i = Max (set ps)) [0..<length ps])))"

text \<open>
  The \<open>try\<close> block of \<open>_perform_prediction\<close>: the features of the window, scaled, and
  the label with its confidence. \<open>None\<close> for the model or the classifier raises
  AttributeError.
\<close>

definition classify ::
  "linalg \<Rightarrow> ('sc, 'clf) sklearn \<Rightarrow> ('sc, 'clf) EEGWorker \<Rightarrow> matrix \<Rightarrow> error + string \<times> real" where
  "classify la sk w eeg_data_T =
     (case model_csp w of
        None \<Rightarrow> Inl AttributeError
      | Some csp \<Rightarrow>
          (case transform la csp (A2 eeg_data_T) of
             Inl e \<Rightarrow> Inl e
           | Inr feat0 \<Rightarrow>
               (case scaler_transform sk (scaler w) feat0 of
                  Inl e \<Rightarrow> Inl e
                | Inr feat \<Rightarrow>
                    (case model_clf w of
                       None \<Rightarrow> Inl AttributeError
                     | Some clf \<Rightarrow>
                         if has_predict_proba sk clf then
                           (case predict_proba sk clf feat of
                              Inl e \<Rightarrow> Inl e
                            | Inr [] \<Rightarrow> Inl IndexError
                            | Inr (probs # _) \<Rightarrow>
                                (case argmax probs of
                                   Inl e \<Rightarrow> Inl e
                                 | Inr pred_idx \<Rightarrow>
                                     Inr (if pred_idx = 0 then ''left'' else ''right'',
                                          probs ! pred_idx)))
                         else
                           (case predict sk clf feat of
                              Inl e \<Rightarrow> Inl e
                            | Inr [] \<Rightarrow> Inl IndexError
                            | Inr (pred_idx # _) \<Rightarrow>
                                Inr (if pred_idx = 0 then ''left'' else ''right'', 1))))))"

text \<open>
  One timer tick. The result is the worker and the emitted \<open>(label, confidence)\<close>, if
  any. The filters return an array for an array, so the \<open>None\<close> branch after them is
  never taken.
\<close>

definition perform_prediction ::
  "signal \<Rightarrow> linalg \<Rightarrow> ('sc, 'clf) sklearn \<Rightarrow> ('sc, 'clf) EEGWorker \<Rightarrow>
     ('sc, 'clf) EEGWorker \<times> (string \<times> real) option" where
  "perform_prediction sg la sk w =
     (case w_buffer w of
        None \<Rightarrow> (w, None)
      | Some rb \<Rightarrow>
          (let n_samples = nat (py_int (win_size_sec w * srate w)) in
           case get_last rb n_samples of
             None \<Rightarrow> (w, None)
           | Some raw \<Rightarrow>
               (let eeg_data = map (take 8) raw;
                    notched = notch_filter sg (Some eeg_data) (srate w) (notch_freq w) 30 0;
                    filtered = butter_filter sg notched (srate w)
                                 (Some (fst (band_pass w))) (Some (snd (band_pass w))) 4 0
                in case filtered of
                     None \<Rightarrow> (w, None)
                   | Some eeg \<Rightarrow>
                       (let c = (case eeg of [] \<Rightarrow> min 8 (n_channels rb) | r # _ \<Rightarrow> length r);
                            eeg_data_T = transpose2d c eeg
                        in case classify la sk w eeg_data_T of
                             Inl e \<Rightarrow> (w, None)
                           | Inr (label, confidence) \<Rightarrow>
                               (w\<lparr>last_pred_label := label\<rparr>, Some (label, confidence))))))"

text \<open>
  \<open>np.stack\<close> and \<open>np.concatenate(..., axis=0)\<close>. The shape of an array is read off
  its first elements; for four or more dimensions, which the model keeps no shape of,
  the shapes are taken to agree.
\<close>

fun shape :: "ndarray \<Rightarrow> nat list" where
  "shape (A0 x) = []"
| "shape (A1 xs) = [length xs]"
| "shape (A2 rows) = [length rows, (case rows of [] \<Rightarrow> 0 | r # _ \<Rightarrow> length r)]"
| "shape (A3 ts) =
     [length ts,
      (case ts of [] \<Rightarrow> 0 | t # _ \<Rightarrow> length t),
      (case ts of [] \<Rightarrow> 0 | t # _ \<Rightarrow> (case t of [] \<Rightarrow> 0 | r # _ \<Rightarrow> length r))]"
| "shape (A4plus k) = []"








section \<open>TCP streaming (AcquisitionThread.run, eeg\_worker.py)\<close>

text \<open>
  A received buffer is a list of bytes. A 32-bit float is identified with its IEEE-754
  bit pattern (the passage through a Python float does not change it, NaN payloads
  aside). In tcp mode the thread fixes \<open>n_ch = 9\<close> and \<open>pack_points = 40\<close>.
\<close>

type_synonym byte = "8 word"
type_synonym float32 = "32 word"

definition n_ch :: nat where "n_ch = 9"
definition pack_points :: nat where "pack_points = 40"
definition bufsize :: nat where "bufsize = n_ch * pack_points * 4"

text \<open>One little-endian item of \<open>struct.unpack('<f...')\<close>: the first byte is the lowest.\<close>

definition le32 :: "byte \<Rightarrow> byte \<Rightarrow> byte \<Rightarrow> byte \<Rightarrow> float32" where
  "le32 b0 b1 b2 b3 =
     ucast b0 OR push_bit 8 (ucast b1) OR push_bit 16 (ucast b2) OR push_bit 24 (ucast b3)"

fun unpack_items :: "byte list \<Rightarrow> float32 list" where
  "unpack_items (b0 # b1 # b2 # b3 # bs) = le32 b0 b1 b2 b3 # unpack_items bs"
| "unpack_items _ = []"

text \<open>\<open>struct.unpack\<close> of \<open>n\<close> items raises unless the buffer has exactly \<open>4n\<close> bytes.\<close>

definition unpack :: "nat \<Rightarrow> byte list \<Rightarrow> error + float32 list" where
  "unpack n bs = (if length bs = 4 * n then Inr (unpack_items bs) else Inl StructError)"

text \<open>\<open>reshape(r, c)\<close> of a flat array of \<open>r * c\<close> values, row-major\<close>

definition reshape :: "nat \<Rightarrow> nat \<Rightarrow> 'a list \<Rightarrow> 'a list list" where
  "reshape r c vals = windows r c vals"

text \<open>
  What one pass through the tcp branch of the loop meets: \<open>select\<close> timing out, or
  \<open>recv\<close> returning bytes or raising.
\<close>

datatype recv_event = Timeout | Received "byte list" | Raised error

text \<open>
  The outcome of the pass: the loop goes on without a chunk, it emits a chunk through
  \<open>data_ready\<close> and goes on, or an exception leaves the loop (reported through
  \<open>error_occurred\<close> while the thread is still running).
\<close>

datatype pass = Continue | Emit "float32 list list" | Fatal error

definition tcp_pass :: "recv_event \<Rightarrow> pass" where
  "tcp_pass ev =
     (case ev of
        Timeout \<Rightarrow> Continue
      | Raised e \<Rightarrow> if e = BlockingIOError then Continue else Fatal e
      | Received raw_bytes \<Rightarrow>
          if raw_bytes = [] then Fatal RuntimeError
          else if length raw_bytes \<noteq> bufsize then Continue
          else
            (case unpack (n_ch * pack_points) raw_bytes of
               Inl e \<Rightarrow> Fatal e
             | Inr vals \<Rightarrow>
                 (let chunk = reshape pack_points n_ch vals
                  in if array_size chunk > 0 then Emit chunk else Continue)))"

text \<open>
  The loop over the passes of a session: the chunks emitted, in order, and the exception
  that ended the loop, if one did.
\<close>

fun tcp_loop :: "recv_event list \<Rightarrow> float32 list list list \<times> error option" where
  "tcp_loop [] = ([], None)"
| "tcp_loop (ev # evs) =
     (case tcp_pass ev of
        Continue \<Rightarrow> tcp_loop evs
      | Emit chunk \<Rightarrow> (chunk # fst (tcp_loop evs), snd (tcp_loop evs))
      | Fatal e \<Rightarrow> ([], Some e))"

text \<open>
  The sender's side in the words of the specification: each value as four bytes, lowest
  first, the rows one after the other.
\<close>

definition bytes_le :: "float32 \<Rightarrow> byte list" where
  "bytes_le w = [ucast w, ucast (drop_bit 8 w), ucast (drop_bit 16 w), ucast (drop_bit 24 w)]"

definition encode_packet :: "float32 list list \<Rightarrow> byte list" where
  "encode_packet rows = concat (map bytes_le (concat rows))"

section \<open>RingBuffer: the buffer holds the most recent rows\<close>

lemma lastn_append_ge: "m \<le> length ys \<Longrightarrow> lastn m (xs @ ys) = lastn m ys"
  by (simp add: lastn_def)

lemma lastn_append_le:
  "m \<le> length xs \<Longrightarrow> length ys \<le> m \<Longrightarrow> lastn m (xs @ ys) = drop (length ys) (lastn m xs) @ ys"
  by (simp add: lastn_def add.commute)

lemma lastn_append_short:
  "length xs + length ys \<ge> m \<Longrightarrow> length xs \<le> m \<Longrightarrow> length ys \<le> m \<Longrightarrow> lastn m (xs @ ys) = drop (length xs + length ys - m) xs @ ys"
  by (simp add: lastn_def)

lemma conform_ok: "list_all (\<lambda>r. length r = c) rows \<Longrightarrow> conform c rows = Inr rows"
  by (simp add: conform_def)

lemma py_from_neg: "0 < m \<Longrightarrow> m \<le> length xs \<Longrightarrow> py_from xs (- int m) = drop (length xs - m) xs"
  by (simp add: py_from_def py_bound_def nat_diff_distrib' of_nat_diff)

lemma append_big:
  assumes "rb_inv rb xs" "list_all (\<lambda>r. length r = n_channels rb) samples" "length samples > maxlen rb"
  shows "\<exists>rb'. append_samples rb samples = Inr rb' \<and> rb_inv rb' (xs @ samples) \<and> maxlen rb' = maxlen rb \<and> n_channels rb' = n_channels rb"
  using assms
  by (auto simp: append_samples_def Let_def conform_ok py_from_neg rb_inv_def lastn_def)

lemma append_fit_notfull:
  assumes "rb_inv rb xs" "list_all (\<lambda>r. length r = n_channels rb) samples" 
   "length samples \<le> maxlen rb" "length samples \<le> maxlen rb - idx rb" "\<not> full rb" "samples \<noteq> []"
  shows "\<exists>rb'. append_samples rb samples = Inr rb' \<and> rb_inv rb' (xs @ samples) \<and> maxlen rb' = maxlen rb \<and> n_channels rb' = n_channels rb"
  using assms
  by (auto simp: append_samples_def Let_def conform_ok rb_inv_def lastn_def)

lemma append_fit_full:
  assumes "rb_inv rb xs" "list_all (\<lambda>r. length r = n_channels rb) samples" 
   "length samples \<le> maxlen rb" "length samples \<le> maxlen rb - idx rb" "full rb" "samples \<noteq> []"
  shows "\<exists>rb'. append_samples rb samples = Inr rb' \<and> rb_inv rb' (xs @ samples) \<and> maxlen rb' = maxlen rb \<and> n_channels rb' = n_channels rb"
proof -
  let ?n = "length samples" and ?m = "maxlen rb" and ?i = "idx rb" and ?b = "buf rb"
  from assms have L: "drop ?i ?b @ take ?i ?b = lastn ?m xs" and lb: "length ?b = ?m" and mx: "?m \<le> length xs"
    and i: "?i < ?m" by (auto simp: rb_inv_def)
  have tgt: "lastn ?m (xs @ samples) = drop (?i + ?n) ?b @ take ?i ?b @ samples"
  proof -
    have "lastn ?m (xs @ samples) = drop ?n (lastn ?m xs) @ samples"
      using mx assms(3) by (rule lastn_append_le)
    also have "drop ?n (lastn ?m xs) = drop ?n (drop ?i ?b @ take ?i ?b)" by (simp add: L)
    also have "\<dots> = drop (?i + ?n) ?b @ take ?i ?b" using assms(4) lb by (simp add: add.commute)
    finally show ?thesis by simp
  qed
  show ?thesis
  proof (cases "?i + ?n = ?m")
    case True
    then show ?thesis using assms tgt lb
      by (auto simp: append_samples_def Let_def conform_ok rb_inv_def)
  next
    case False
    then have "?i + ?n < ?m" using assms(4) i by linarith
    then show ?thesis using assms tgt lb
      by (auto simp: append_samples_def Let_def conform_ok rb_inv_def)
  qed
qed

lemma append_wrap:
  assumes "rb_inv rb xs" "list_all (\<lambda>r. length r = n_channels rb) samples" 
   "length samples \<le> maxlen rb" "length samples > maxlen rb - idx rb"
  shows "\<exists>rb'. append_samples rb samples = Inr rb' \<and> rb_inv rb' (xs @ samples) \<and> maxlen rb' = maxlen rb \<and> n_channels rb' = n_channels rb"
proof -
  let ?n = "length samples" and ?m = "maxlen rb" and ?i = "idx rb" and ?b = "buf rb"
  let ?r = "?m - ?i" and ?ov = "?n - (?m - ?i)"
  let ?b1 = "take ?i ?b @ take ?r samples"
  let ?b2 = "drop ?r samples @ drop ?ov ?b1"
  from assms have lb: "length ?b = ?m" and i: "?i < ?m" by (auto simp: rb_inv_def)
  have ov: "?ov \<le> ?i" "0 < ?ov" "?ov < ?m" using assms(3,4) i by linarith+
  have lb2: "length ?b2 = ?m" using lb i assms(3,4) by simp
  have rot: "drop ?ov ?b2 @ take ?ov ?b2 = drop ?ov (take ?i ?b) @ samples"
    using lb i ov assms(3,4) by simp
  have tgt: "lastn ?m (xs @ samples) = drop ?ov (take ?i ?b) @ samples"
  proof (cases "full rb")
    case True
    with assms have L: "drop ?i ?b @ take ?i ?b = lastn ?m xs" and mx: "?m \<le> length xs"
      by (auto simp: rb_inv_def)
    have "lastn ?m (xs @ samples) = drop ?n (lastn ?m xs) @ samples"
      using mx assms(3) by (rule lastn_append_le)
    also have "drop ?n (lastn ?m xs) = drop ?n (drop ?i ?b @ take ?i ?b)" by (simp add: L)
    also have "\<dots> = drop ?ov (take ?i ?b)" using assms(4) lb i by simp
    finally show ?thesis .
  next
    case False
    with assms have L: "take ?i ?b = xs" and lx: "length xs = ?i" by (auto simp: rb_inv_def)
    have "lastn ?m (xs @ samples) = drop (length xs + ?n - ?m) xs @ samples"
      using lx i assms(3,4) by (intro lastn_append_short) auto
    moreover have "length xs + ?n - ?m = ?ov" using lx i assms(4) by simp
    ultimately show ?thesis using L by simp
  qed
  have ap: "append_samples rb samples = Inr (rb\<lparr>buf := ?b2, idx := ?ov, full := True\<rparr>)"
    using assms(2,3,4) ov by (auto simp: append_samples_def Let_def conform_ok)
  have tot: "?m \<le> length xs + ?n"
    using assms(1,4) by (cases "full rb") (auto simp: rb_inv_def)
  show ?thesis unfolding ap using lb2 ov rot tgt assms(1,3) tot
    by (simp add: rb_inv_def del: drop_append take_append)
qed

lemma append_inv:
  assumes "rb_inv rb xs" "list_all (\<lambda>r. length r = n_channels rb) samples"
  shows "\<exists>rb'. append_samples rb samples = Inr rb' \<and> rb_inv rb' (xs @ samples) \<and> maxlen rb' = maxlen rb \<and> n_channels rb' = n_channels rb"
proof (cases "samples = []")
  case True
  then show ?thesis using assms by (simp add: append_samples_def)
next
  case ne: False
  show ?thesis
  proof (cases "length samples > maxlen rb")
    case True
    then show ?thesis using assms by (intro append_big)
  next
    case le: False
    show ?thesis
    proof (cases "length samples \<le> maxlen rb - idx rb")
      case True
      then show ?thesis using assms le ne append_fit_full append_fit_notfull 
        by (cases "full rb") (simp_all add: not_less)
    next
      case False
      then show ?thesis using assms le by (intro append_wrap) auto
    qed
  qed
qed

lemma init_inv: "0 < m \<Longrightarrow> rb_inv (RingBuffer_init c m) []"
  by (simp add: rb_inv_def RingBuffer_init_def)

lemma append_all_inv:
  "rb_inv rb xs \<Longrightarrow> list_all (list_all (\<lambda>r. length r = n_channels rb)) chunks \<Longrightarrow>
   \<exists>rb'. append_all rb chunks = Inr rb' \<and> rb_inv rb' (xs @ concat chunks) \<and> maxlen rb' = maxlen rb \<and> n_channels rb' = n_channels rb"
proof (induction chunks arbitrary: rb xs)
  case Nil
  then show ?case by simp
next
  case (Cons c cs)
  from Cons.prems obtain rb1 where 1: "append_samples rb c = Inr rb1" "rb_inv rb1 (xs @ c)"
     "maxlen rb1 = maxlen rb" "n_channels rb1 = n_channels rb"
    using append_inv[of rb xs c] by auto
  from Cons.IH[of rb1 "xs @ c"] 1 Cons.prems show ?case by auto
qed

lemma get_last_inv:
  assumes "rb_inv rb xs" "n \<le> maxlen rb"
  shows "get_last rb n = (if length xs < n then None else Some (lastn n xs))"
proof (cases "full rb")
  case False
  with assms have "take (idx rb) (buf rb) = xs" "length xs = idx rb" "idx rb < length (buf rb)" by (auto simp: rb_inv_def)
  moreover have "n \<le> idx rb \<Longrightarrow> idx rb - (idx rb - n) = n" by simp
  ultimately show ?thesis using False
    by (auto simp: get_last_def lastn_def drop_take)
next
  case True
  let ?m = "maxlen rb" and ?i = "idx rb" and ?b = "buf rb"
  from True assms have L: "drop ?i ?b @ take ?i ?b = lastn ?m xs" and mx: "?m \<le> length xs"
    and lb: "length ?b = ?m" and i: "?i < ?m"
      by (auto simp: rb_inv_def)
  have ln: "lastn n xs = lastn n (lastn ?m xs)" using assms(2) mx by (simp add: lastn_def)
  show ?thesis
  proof (cases "n \<le> ?i")
    case True
    have "lastn n (drop ?i ?b @ take ?i ?b) = take n (drop (?i - n) ?b)"
      using True lb i by (simp add: lastn_def drop_take)
    then show ?thesis using True \<open>full rb\<close> mx assms(2) ln L by (simp add: get_last_def)
  next
    case False
    have "nat (int ?i - int n + int ?m) = ?i + ?m - n" using assms(2) by linarith
    then have pf: "py_from ?b (int ?i - int n + int ?m) = drop (?i + ?m - n) ?b"
      using False assms(2) lb by (auto simp: py_from_def py_bound_def)
    have "lastn n (drop ?i ?b @ take ?i ?b) = drop (?i + ?m - n) ?b @ take ?i ?b"
      using False lb i assms(2) by (simp add: lastn_def add.commute)
    then show ?thesis using False \<open>full rb\<close> mx assms(2) ln L pf by (simp add: get_last_def Let_def)
  qed
qed

text \<open>
  Within the capacity, \<open>get_last\<close> is unavailable exactly when fewer than \<open>n\<close> rows
  have been appended, and otherwise returns the \<open>n\<close> most recent rows.
\<close>

lemma get_last_within_capacity:
  assumes "0 < C" and "list_all (list_all (\<lambda>r. length r = c)) chunks" and "n \<le> C"
  shows "\<exists>rb. append_all (RingBuffer_init c C) chunks = Inr rb \<and>
           get_last rb n = (if length (concat chunks) < n then None
                            else Some (lastn n (concat chunks)))"
proof -
  have "rb_inv (RingBuffer_init c C :: ('a::zero) RingBuffer) []" using assms(1) by (rule init_inv)
  moreover have "n_channels (RingBuffer_init c C :: 'a RingBuffer) = c" "maxlen (RingBuffer_init c C :: 'a RingBuffer) = C"
    by (simp_all add: RingBuffer_init_def)
  ultimately obtain rb where rb: "append_all (RingBuffer_init c C) chunks = Inr rb"
      "rb_inv rb (concat chunks)" "maxlen rb = C"
    using append_all_inv[of "RingBuffer_init c C :: 'a RingBuffer" "[]" chunks] assms(2) by auto
  from get_last_inv[OF rb(2), of n] assms(3) rb(3) rb(1) show ?thesis by simp
qed

text \<open>
  C2: for a buffer of capacity \<open>C > 0\<close> and chunks of any sizes (also larger than \<open>C\<close>)
  whose rows have the buffer's width and total \<open>C + k\<close> rows, every append succeeds and
  \<open>get_last C\<close> returns exactly the \<open>C\<close> most recently appended rows, oldest first:
  the stream without its first \<open>k\<close> rows.
\<close>

theorem get_last_capacity_most_recent:
  assumes "0 < C" and "list_all (list_all (\<lambda>r. length r = c)) chunks"
    and "length (concat chunks) = C + k"
  shows "\<exists>rb. append_all (RingBuffer_init c C) chunks = Inr rb \<and>
           get_last rb C = Some (drop k (concat chunks)) \<and>
           length (drop k (concat chunks)) = C"
proof -
  have "rb_inv (RingBuffer_init c C :: ('a::zero) RingBuffer) []" using assms(1) by (rule init_inv)
  moreover have "n_channels (RingBuffer_init c C :: 'a RingBuffer) = c" "maxlen (RingBuffer_init c C :: 'a RingBuffer) = C"
    by (simp_all add: RingBuffer_init_def)
  ultimately obtain rb where rb: "append_all (RingBuffer_init c C) chunks = Inr rb"
      "rb_inv rb (concat chunks)" "maxlen rb = C"
    using append_all_inv[of "RingBuffer_init c C :: 'a RingBuffer" "[]" chunks] assms(2) by auto
  have "get_last rb C = Some (lastn C (concat chunks))"
    using get_last_inv[OF rb(2), of C] rb(3) assms(3) by simp
  moreover have "lastn C (concat chunks) = drop k (concat chunks)"
    using assms(3) by (simp add: lastn_def)
  ultimately show ?thesis using rb(1) assms(3) by simp
qed

theorem get_last_capacity_most_recent_witness:
  "\<exists>rb. append_all (RingBuffer_init 1 3) [[[1], [2]], [[3], [4], [5], [6], [7]], [[8::int]]] = Inr rb \<and>
        get_last rb 3 = Some [[6], [7], [8]]"
  using get_last_capacity_most_recent
          [of 3 1 "[[[1], [2]], [[3], [4], [5], [6], [7]], [[8::int]]]" 5]
  by simp

text \<open>
  The capacity must be positive: a buffer of capacity 0 takes no chunk of two or more
  rows, since \<open>samples[-0:]\<close> is the whole chunk.
\<close>

lemma append_samples_zero_capacity:
  "append_samples (RingBuffer_init 1 0) [[1], [2::int]] = Inl ValueError"
  by (simp add: append_samples_def conform_def RingBuffer_init_def py_from_def py_bound_def Let_def)

text \<open>
  C3: a buffer of capacity 4 that has received exactly 4 rows has wrapped (\<open>full\<close> is set,
  the cursor is back at 0). Asked for 5 rows, more than were ever appended, \<open>get_last\<close>
  does not answer \<open>None\<close>: the slice start \<open>idx - n + maxlen = -1\<close> is negative and
  Python counts it from the end, so the call returns the single newest row.
\<close>

theorem get_last_beyond_capacity_after_wrap:
  "\<exists>rb. append_all (RingBuffer_init 1 4) [[[1], [2], [3], [4::int]]] = Inr rb \<and>
        full rb \<and> idx rb = 0 \<and> get_last rb 5 = Some [[4]]"
  by (simp add: append_samples_def conform_def RingBuffer_init_def get_last_def
        py_from_def py_bound_def Let_def)

section \<open>Calibration capture: the trial set is the windows of the stream\<close>

lemma windows_Suc_append:
  "length w = S \<Longrightarrow> windows (Suc k) S (w @ zs) = w # windows k S zs"
proof -
  assume l: "length w = S"
  have "[0..<Suc k] = 0 # map Suc [0..<k]" by (simp add: upt_conv_Cons map_Suc_upt del: upt_Suc)
  then show ?thesis using l by (simp add: windows_def comp_def del: upt_Suc)
qed

lemma capture_rows_closed:
  assumes "0 < S" "samples_needed st = int S" "needed st = int N" "collected st = int c" "c < N"
    "length (buffer st) < S" "ts (target st) = Some T"
  shows "capture_rows st ts rs =
    (let ys = buffer st @ rs; q = length ys div S in
     if c + q \<ge> N then (None, ts(target st \<mapsto> T @ map transpose (windows (N - c) S ys)), None)
     else (Some (st\<lparr>buffer := drop (q * S) ys, collected := int (c + q)\<rparr>),
           ts(target st \<mapsto> T @ map transpose (windows q S ys)), None))"
  using assms
proof (induction rs arbitrary: st ts T c)
  case Nil
  then show ?case by (simp add: windows_def fun_upd_idem)
next
  case (Cons r rs)
  let ?b = "buffer st @ [r]"
  show ?case
  proof (cases "length ?b = S")
    case full: True
    let ?ts2 = "ts(target st \<mapsto> T @ [transpose ?b])"
    let ?st2 = "st\<lparr>buffer := [], collected := int (Suc c)\<rparr>"
    have ys: "buffer st @ r # rs = ?b @ rs" by simp
    have q: "length (?b @ rs) div S = Suc (length rs div S)" using full Cons.prems(1)
      by (metis add.commute div_add_self1 length_append less_numeral_extra(3) plus_1_eq_Suc)
    show ?thesis
    proof (cases "Suc c \<ge> N")
      case True
      then have nc: "N - c = Suc 0" using Cons.prems(5) by simp
      have w0: "windows (Suc 0) S (?b @ rs) = [?b]"
        using full windows_Suc_append[of ?b S 0 rs] by (simp add: windows_def)
      have step: "capture_rows st ts (r # rs) = (None, ts(target st \<mapsto> T @ [transpose ?b]), None)"
        using Cons.prems full True by (simp add: Let_def)
      show ?thesis unfolding step ys using q w0 nc True
        by (simp add: Let_def del: append_assoc)
    next
      case False
      have IH: "capture_rows ?st2 ?ts2 rs =
        (let ys = buffer ?st2 @ rs; q = length ys div S in
         if Suc c + q \<ge> N then (None, ?ts2(target ?st2 \<mapsto> (T @ [transpose ?b]) @ map transpose (windows (N - Suc c) S ys)), None)
         else (Some (?st2\<lparr>buffer := drop (q * S) ys, collected := int (Suc c + q)\<rparr>),
           ?ts2(target ?st2 \<mapsto> (T @ [transpose ?b]) @ map transpose (windows q S ys)), None))"
        using Cons.prems False by (intro Cons.IH) auto
      have w1: "\<And>k. windows (Suc k) S (?b @ rs) = ?b # windows k S rs"
        using full by (rule windows_Suc_append)
      have nc: "N - c = Suc (N - Suc c)" using False by simp
      have step: "capture_rows st ts (r # rs) = capture_rows ?st2 ?ts2 rs"
        using Cons.prems full False by (simp add: Let_def add.commute)
      show ?thesis unfolding step IH ys using q w1 nc full Cons.prems(1)
        apply (simp add: Let_def del: append_assoc)
        apply simp
        done
    qed
  next
    case False
    then have lt: "length ?b < S" using Cons.prems(6) by simp
    let ?st1 = "st\<lparr>buffer := ?b\<rparr>"
    have step: "capture_rows st ts (r # rs) = capture_rows ?st1 ts rs"
      using Cons.prems lt by (simp add: Let_def)
    have IH: "capture_rows ?st1 ts rs =
        (let ys = buffer ?st1 @ rs; q = length ys div S in
         if c + q \<ge> N then (None, ts(target ?st1 \<mapsto> T @ map transpose (windows (N - c) S ys)), None)
         else (Some (?st1\<lparr>buffer := drop (q * S) ys, collected := int (c + q)\<rparr>),
           ts(target ?st1 \<mapsto> T @ map transpose (windows q S ys)), None))"
      using Cons.prems lt by (intro Cons.IH) auto
    show ?thesis unfolding step IH by (simp add: Let_def)
  qed
qed

lemma windows_append_left:
  assumes "k * S \<le> length xs"
  shows "windows k S (xs @ ys) = windows k S xs"
proof -
  have "take S (drop (i * S) (xs @ ys)) = take S (drop (i * S) xs)" if "i < k" for i
  proof -
    have "Suc i * S \<le> k * S" using that by (intro mult_le_mono1) simp
    then have "i * S + S \<le> length xs" using assms by simp
    then show ?thesis by simp
  qed
  then show ?thesis by (simp add: windows_def)
qed

lemma windows_add:
  "windows (a + b) S zs = windows a S zs @ windows b S (drop (a * S) zs)"
proof -
  have "[0..<a + b] = [0..<a] @ [a..<a + b]"
    using upt_add_eq_append[of 0 a b] by simp
  moreover have "[a..<a + b] = map (\<lambda>i. i + a) [0..<b]"
    using map_add_upt[of a b] by (simp only: add.commute)
  ultimately have "[0..<a + b] = [0..<a] @ map (\<lambda>i. i + a) [0..<b]" by simp
  then show ?thesis
    by (simp add: windows_def comp_def add_mult_distrib)
qed

lemma length_windows: "length (windows k S xs) = k"
  by (simp add: windows_def)

lemma window_length:
  assumes "k * S \<le> length xs" "w \<in> set (windows k S xs)"
  shows "length w = S"
proof -
  from assms(2) obtain i where i: "i < k" "w = take S (drop (i * S) xs)"
    by (auto simp: windows_def)
  have "Suc i * S \<le> k * S" using i(1) by (intro mult_le_mono1) simp
  then have "i * S + S \<le> length xs" using assms(1) by simp
  then show ?thesis using i(2) by simp
qed

lemma window_rows: "w \<in> set (windows k S xs) \<Longrightarrow> set w \<subseteq> set xs"
  by (auto simp: windows_def dest!: in_set_takeD in_set_dropD)

lemma div_split_rest:
  assumes "0 < (S::nat)"
  shows "(n + l) div S = n div S + (n mod S + l) div S"
proof -
  have "n + l = (n div S) * S + (n mod S + l)" by simp
  then have "(n + l) div S = ((n div S) * S + (n mod S + l)) div S" by (rule arg_cong)
  also have "\<dots> = n div S + (n mod S + l) div S" using assms by (simp only: div_mult_self3)
  finally show ?thesis .
qed


lemma capture_after_done:
  "N \<le> length xs div S \<Longrightarrow> capture_after m tgt S N xs =
     m\<lparr>capture_state := None,
             train_samples := (train_samples m)(tgt \<mapsto> map transpose (windows N S xs))\<rparr>"
  by (simp add: capture_after_def)

lemma capture_after_running:
  "\<not> N \<le> length xs div S \<Longrightarrow> capture_after m tgt S N xs =
     m\<lparr>capture_state :=
               Some \<lparr>target = tgt, needed = int N, collected = int (length xs div S),
                     samples_needed = int S, buffer = drop (length xs div S * S) xs\<rparr>,
             train_samples := (train_samples m)(tgt \<mapsto> map transpose (windows (length xs div S) S xs))\<rparr>"
  by (simp add: capture_after_def Let_def)

lemma on_worker_samples_done:
  assumes "0 < S" "N \<le> length xs div S"
  shows "on_worker_samples (capture_after m tgt S N xs) chunk = (capture_after m tgt S N (xs @ chunk), None)"
proof -
  have "N * S \<le> length xs div S * S" using assms(2) by (rule mult_le_mono1)
  then have a: "N * S \<le> length xs"
    using div_times_less_eq_dividend[of "length xs" S] by linarith
  have "length xs div S \<le> length (xs @ chunk) div S" by (intro div_le_mono) simp
  then have b: "N \<le> length (xs @ chunk) div S" using assms(2) by linarith
  have c: "windows N S (xs @ chunk) = windows N S xs" using a by (rule windows_append_left)
  show ?thesis unfolding capture_after_done[OF assms(2)] capture_after_done[OF b] c
    by (simp add: on_worker_samples_def)
qed

lemma on_worker_samples_running:
  assumes "0 < S" "0 < N" "\<not> N \<le> length xs div S"
  shows "on_worker_samples (capture_after m tgt S N xs) chunk = (capture_after m tgt S N (xs @ chunk), None)"
proof -
  define q where "q = length xs div S"
  define b where "b = drop (q * S) xs"
  define st where "st = \<lparr>target = tgt, needed = int N, collected = int q,
                     samples_needed = int S, buffer = b\<rparr>"
  define T where "T = map transpose (windows q S xs)"
  define ts where "ts = (train_samples m)(tgt \<mapsto> T)"
  define ys where "ys = b @ chunk"
  define q2 where "q2 = length ys div S"
  have qN: "q < N" using assms(3) by (simp add: q_def)
  have qS: "q * S \<le> length xs" unfolding q_def by (rule div_times_less_eq_dividend)
  have lb: "length b = length xs mod S"
    by (simp add: b_def q_def minus_div_mult_eq_mod)
  have lbS: "length b < S" using lb assms(1) by simp
  have lys: "length ys = length xs mod S + length chunk" using lb by (simp add: ys_def)
  have qq: "length (xs @ chunk) div S = q + q2"
    using div_split_rest[OF assms(1), of "length xs" "length chunk"] by (simp add: q_def q2_def lys)
  have ys: "ys = drop (q * S) (xs @ chunk)" using qS by (simp add: ys_def b_def)
  have w1: "windows q S (xs @ chunk) = windows q S xs" using qS by (rule windows_append_left)
  have before: "capture_after m tgt S N xs = m\<lparr>capture_state := Some st, train_samples := ts\<rparr>"
    using capture_after_running[OF assms(3), of m tgt] by (simp add: st_def ts_def T_def b_def q_def)
  have cr: "capture_rows st ts chunk =
    (let ys = buffer st @ chunk; q' = length ys div S in
     if q + q' \<ge> N then (None, ts(target st \<mapsto> T @ map transpose (windows (N - q) S ys)), None)
     else (Some (st\<lparr>buffer := drop (q' * S) ys, collected := int (q + q')\<rparr>),
           ts(target st \<mapsto> T @ map transpose (windows q' S ys)), None))"
    using assms(1) qN lbS by (intro capture_rows_closed) (simp_all add: st_def ts_def)
  have bst: "buffer st = b" "target st = tgt" by (simp_all add: st_def)
  have tsup: "\<And>v. ts(tgt \<mapsto> v) = (train_samples m)(tgt \<mapsto> v)" by (simp add: ts_def)
  have lhs: "on_worker_samples (m\<lparr>capture_state := Some st, train_samples := ts\<rparr>) chunk =
     (case capture_rows st ts chunk of
        (st', ts', e) \<Rightarrow> (m\<lparr>capture_state := st', train_samples := ts'\<rparr>, e))"
    by (simp add: on_worker_samples_def process_capture_chunk_def split: prod.splits)
  show ?thesis
  proof (cases "N \<le> q + q2")
    case True
    have "windows (q + (N - q)) S (xs @ chunk) = windows q S (xs @ chunk) @ windows (N - q) S ys"
      unfolding ys by (rule windows_add)
    then have W: "T @ map transpose (windows (N - q) S ys) = map transpose (windows N S (xs @ chunk))"
      using w1 qN by (simp add: T_def)
    have after: "capture_after m tgt S N (xs @ chunk) =
      m\<lparr>capture_state := None,
        train_samples := (train_samples m)(tgt \<mapsto> map transpose (windows N S (xs @ chunk)))\<rparr>"
      using True qq by (intro capture_after_done) simp
    have "capture_rows st ts chunk = (None, (train_samples m)(tgt \<mapsto> map transpose (windows N S (xs @ chunk))), None)"
      unfolding cr bst using True W tsup by (simp add: Let_def ys_def[symmetric] q2_def[symmetric])
    then show ?thesis unfolding before lhs after by simp
  next
    case False
    have "windows (q + q2) S (xs @ chunk) = windows q S (xs @ chunk) @ windows q2 S ys"
      unfolding ys by (rule windows_add)
    then have W: "T @ map transpose (windows q2 S ys) = map transpose (windows (q + q2) S (xs @ chunk))"
      using w1 by (simp add: T_def)
    have D: "drop (q2 * S) ys = drop ((q + q2) * S) (xs @ chunk)"
      unfolding ys by (simp only: drop_drop add_mult_distrib add.commute)
    have "\<not> N \<le> length (xs @ chunk) div S" using False qq by simp
    from capture_after_running[OF this, of m tgt]
    have after: "capture_after m tgt S N (xs @ chunk) =
      m\<lparr>capture_state := Some \<lparr>target = tgt, needed = int N, collected = int (q + q2),
                     samples_needed = int S, buffer = drop ((q + q2) * S) (xs @ chunk)\<rparr>,
        train_samples := (train_samples m)(tgt \<mapsto> map transpose (windows (q + q2) S (xs @ chunk)))\<rparr>"
      unfolding qq .
    have "capture_rows st ts chunk = (Some (st\<lparr>buffer := drop (q2 * S) ys, collected := int (q + q2)\<rparr>),
           (train_samples m)(tgt \<mapsto> map transpose (windows (q + q2) S (xs @ chunk))), None)"
      unfolding cr bst using False W tsup by (simp add: Let_def ys_def[symmetric] q2_def[symmetric])
    then show ?thesis unfolding before lhs after D by (simp add: st_def)
  qed
qed

lemma on_worker_samples_capture_after:
  assumes "0 < S" "0 < N"
  shows "on_worker_samples (capture_after m tgt S N xs) chunk = (capture_after m tgt S N (xs @ chunk), None)"
  using on_worker_samples_done[OF assms(1)] on_worker_samples_running[OF assms]
  by (cases "N \<le> length xs div S") blast+

lemma feed_chunks_capture_after:
  assumes "0 < S" "0 < N"
  shows "feed_chunks (capture_after m tgt S N xs) chunks = (capture_after m tgt S N (xs @ concat chunks), None)"
proof (induction chunks arbitrary: xs)
  case Nil
  then show ?case by simp
next
  case (Cons c cs)
  show ?case using on_worker_samples_capture_after[OF assms, of m tgt xs c] Cons.IH[of "xs @ c"]
    by simp
qed

lemma start_capture_after:
  assumes "capture_state m = None" "0 < S" "0 < N"
  shows "start_capture m tgt (int S) (int N) = capture_after m tgt S N []"
  using assms by (simp add: start_capture_def capture_after_def windows_def)

lemma transpose_window_shape:
  assumes "0 < S" "length w = S" "\<forall>r\<in>set w. length r = c"
  shows "length (transpose w) = c \<and> (\<forall>ch\<in>set (transpose w). length ch = S)"
proof -
  have ne: "w \<noteq> []" using assms(1,2) by auto
  have tr: "transpose w = map (\<lambda>i. map (\<lambda>j. w ! j ! i) [0..<length w]) [0..<c]"
    using ne assms(3) by (intro transpose_rectangle) auto
  show ?thesis unfolding tr using assms(2) by auto
qed

text \<open>
  C7: a capture started from Idle with \<open>needed = N \<ge> 1\<close> and
  \<open>samples_needed = S \<ge> 1\<close>, fed any chunks of rows of width \<open>c\<close>, raises nothing.
  The trial set \<open>T\<close> of the target class is exactly the consecutive windows of \<open>S\<close> rows
  of the incoming stream, each transposed to \<open>c \<times> S\<close>, at most \<open>N\<close> of them; while
  fewer than \<open>N\<close> windows are complete the session is Capturing with
  \<open>collected = length T\<close> and the buffer holding every row since the last window; it is
  Idle exactly when \<open>length T = N\<close>.
\<close>

theorem calibration_capture_windows:
  assumes "capture_state m = None" and "0 < S" and "0 < N"
    and "\<forall>r\<in>set (concat chunks). length r = c"
  shows "\<exists>m' T. feed_chunks (start_capture m tgt (int S) (int N)) chunks = (m', None) \<and>
           train_samples m' tgt = Some T \<and>
           T = map transpose (windows (min N (length (concat chunks) div S)) S (concat chunks)) \<and>
           length T = min N (length (concat chunks) div S) \<and>
           (\<forall>trial\<in>set T. length trial = c \<and> (\<forall>ch\<in>set trial. length ch = S)) \<and>
           ((capture_state m' = None) = (length T = N)) \<and>
           (length T < N \<longrightarrow>
              capture_state m' =
                Some \<lparr>target = tgt, needed = int N, collected = int (length T),
                      samples_needed = int S, buffer = drop (length T * S) (concat chunks)\<rparr>)"
proof -
  let ?xs = "concat chunks"
  let ?q = "length ?xs div S"
  let ?k = "min N ?q"
  let ?T = "map transpose (windows ?k S ?xs)"
  let ?m' = "capture_after m tgt S N ?xs"
  have run: "feed_chunks (start_capture m tgt (int S) (int N)) chunks = (?m', None)"
    using feed_chunks_capture_after[OF assms(2,3), of m tgt "[]" chunks]
      start_capture_after[OF assms(1,2,3), of tgt] by simp
  have ts: "train_samples ?m' tgt = Some ?T"
    by (cases "N \<le> ?q") (simp_all add: capture_after_def Let_def min_def)
  have len: "length ?T = ?k" by (simp add: length_windows)
  have kS: "?k * S \<le> length ?xs"
  proof -
    have "?k * S \<le> ?q * S" by (intro mult_le_mono1) simp
    then show ?thesis using div_times_less_eq_dividend[of "length ?xs" S] by linarith
  qed
  have shape: "\<forall>trial\<in>set ?T. length trial = c \<and> (\<forall>ch\<in>set trial. length ch = S)"
  proof
    fix trial assume "trial \<in> set ?T"
    then obtain w where w: "w \<in> set (windows ?k S ?xs)" "trial = transpose w" by auto
    have "length w = S" using kS w(1) by (rule window_length)
    moreover have "\<forall>r\<in>set w. length r = c" using window_rows[OF w(1)] assms(4) by blast
    ultimately show "length trial = c \<and> (\<forall>ch\<in>set trial. length ch = S)"
      unfolding w(2) using assms(2) by (intro transpose_window_shape)
  qed
  have idle: "(capture_state ?m' = None) = (length ?T = N)"
    unfolding len by (cases "N \<le> ?q") (simp_all add: capture_after_def Let_def min_def)
  have cap: "length ?T < N \<longrightarrow>
              capture_state ?m' =
                Some \<lparr>target = tgt, needed = int N, collected = int (length ?T),
                      samples_needed = int S, buffer = drop (length ?T * S) ?xs\<rparr>"
    unfolding len by (cases "N \<le> ?q") (simp_all add: capture_after_def Let_def min_def)
  show ?thesis
    apply (rule exI[of _ ?m'])
    apply (rule exI[of _ ?T])
    apply (intro conjI)
          apply (rule run)
         apply (rule ts)
        apply (rule refl)
       apply (rule len)
      apply (rule shape)
     apply (rule idle)
    apply (rule cap)
    done
qed

theorem calibration_capture_windows_witness:
  "\<exists>m'. feed_chunks
          (start_capture \<lparr>capture_state = None, train_samples = Map.empty\<rparr> ''left'' 2 2)
          [[[1, 2]], [[3, 4], [5, 6], [7, 8], [9, 10::int]]] = (m', None) \<and>
        train_samples m' ''left'' = Some [[[1, 3], [2, 4]], [[5, 7], [6, 8]]] \<and>
        capture_state m' = None"
proof -
  let ?chunks = "[[[1, 2]], [[3, 4], [5, 6], [7, 8], [9, 10::int]]]"
  have w: "map transpose (windows (min 2 (length (concat ?chunks) div 2)) 2 (concat ?chunks)) =
           [[[1, 3], [2, 4]], [[5, 7], [6, 8]]]"
    by code_simp
  have h: "\<forall>r\<in>set (concat ?chunks). length r = 2" by simp
  show ?thesis
    using calibration_capture_windows
            [of "\<lparr>capture_state = None, train_samples = Map.empty\<rparr>" 2 2 ?chunks 2 "''left''", OF _ _ _ h]
    unfolding w by auto
qed

text \<open>
  With \<open>needed = 0\<close> the first complete window is stored and counted, and the progress
  percentage then divides by zero: the session stays Capturing.
\<close>

lemma capture_needed_zero:
  "feed_chunks (start_capture \<lparr>capture_state = None, train_samples = Map.empty\<rparr> ''left'' 1 0)
     [[[1, 2::int]]] =
   (\<lparr>capture_state = Some \<lparr>target = ''left'', needed = 0, collected = 1,
                             samples_needed = 1, buffer = []\<rparr>,
      train_samples = [''left'' \<mapsto> [[[1], [2]]]]\<rparr>, Some ZeroDivisionError)"
  by (simp add: start_capture_def on_worker_samples_def process_capture_chunk_def Let_def)

section \<open>Signal filters: the identity fallbacks\<close>

lemma select_filter_band:
  "f_low = Some l \<Longrightarrow> f_high = Some h \<Longrightarrow> l \<noteq> 0 \<Longrightarrow> h \<noteq> 0 \<Longrightarrow>
   select_filter fs f_low f_high =
     (if l \<ge> h \<or> h \<ge> fs / 2 then None else Some (Band, Cutoffs (l / (fs / 2)) (h / (fs / 2))))"
  by (simp add: select_filter_def truthy_def)

lemma select_filter_low:
  "truthy f_low = None \<Longrightarrow> f_high = Some h \<Longrightarrow> h \<noteq> 0 \<Longrightarrow>
   select_filter fs f_low f_high =
     (if h \<ge> fs / 2 then None else Some (Low, Cutoff (h / (fs / 2))))"
  by (simp add: select_filter_def truthy_def)

lemma select_filter_high:
  "f_low = Some l \<Longrightarrow> l \<noteq> 0 \<Longrightarrow> truthy f_high = None \<Longrightarrow>
   select_filter fs f_low f_high =
     (if l \<ge> fs / 2 then None else Some (High, Cutoff (l / (fs / 2))))"
  by (simp add: select_filter_def truthy_def)

text \<open>
  C9: \<open>butter_filter\<close> returns its input unchanged in every fallback case: sample rate
  \<open>\<le> 0\<close>; no data or empty data; both cutoffs absent; band mode (both cutoffs given
  and non-zero) with \<open>f_low \<ge> f_high\<close> or \<open>f_high \<ge> fs/2\<close>; low-pass mode (no true
  \<open>f_low\<close>) with \<open>f_high \<ge> fs/2\<close>; high-pass mode (no true \<open>f_high\<close>) with
  \<open>f_low \<ge> fs/2\<close>; or the filter design or its application raising.
\<close>

theorem butter_filter_identity_fallback:
  assumes "fs \<le> 0
     \<or> data = None
     \<or> (\<exists>d. data = Some d \<and> array_size d = 0)
     \<or> (f_low = None \<and> f_high = None)
     \<or> (\<exists>l h. f_low = Some l \<and> f_high = Some h \<and> l \<noteq> 0 \<and> h \<noteq> 0 \<and> (l \<ge> h \<or> h \<ge> fs / 2))
     \<or> (\<exists>h. (f_low = None \<or> f_low = Some 0) \<and> f_high = Some h \<and> h \<ge> fs / 2)
     \<or> (\<exists>l. f_low = Some l \<and> (f_high = None \<or> f_high = Some 0) \<and> l \<ge> fs / 2)
     \<or> (\<exists>d bt wn e. data = Some d \<and> select_filter fs f_low f_high = Some (bt, wn) \<and>
            design_and_apply sg order bt wn d axis = Inl e)"
  shows "butter_filter sg data fs f_low f_high order axis = data"
proof (cases "fs \<le> 0 \<or> data = None \<or> (\<exists>d. data = Some d \<and> array_size d = 0)")
  case True
  then show ?thesis by (auto simp: butter_filter_def)
next
  case False
  then obtain d where d: "data = Some d" "array_size d \<noteq> 0" "0 < fs" by auto
  have bf: "butter_filter sg (Some d) fs f_low f_high order axis =
     (case select_filter fs f_low f_high of
            None \<Rightarrow> Some d
          | Some (bt, wn) \<Rightarrow>
              (case design_and_apply sg order bt wn d axis of
                 Inl e \<Rightarrow> Some d
               | Inr y \<Rightarrow> Some y))"
    using d by (simp add: butter_filter_def)
  from assms False consider
      (none) "f_low = None" "f_high = None"
    | (band) l h where "f_low = Some l" "f_high = Some h" "l \<noteq> 0" "h \<noteq> 0" "l \<ge> h \<or> h \<ge> fs / 2"
    | (low) h where "f_low = None \<or> f_low = Some 0" "f_high = Some h" "h \<ge> fs / 2"
    | (high) l where "f_low = Some l" "f_high = None \<or> f_high = Some 0" "l \<ge> fs / 2"
    | (raises) bt wn e where "select_filter fs f_low f_high = Some (bt, wn)"
            "design_and_apply sg order bt wn d axis = Inl e"
    using d(1) by auto
  then show ?thesis
  proof cases
    case none
    then show ?thesis unfolding d(1) bf by (simp add: select_filter_def truthy_def)
  next
    case band
    then show ?thesis unfolding d(1) bf by (auto simp: select_filter_band)
  next
    case low
    then have "h \<noteq> 0" using d(3) by auto
    moreover have "truthy f_low = None" using low(1) by (auto simp: truthy_def)
    ultimately show ?thesis unfolding d(1) bf using low by (simp add: select_filter_low)
  next
    case high
    then have "l \<noteq> 0" using d(3) by auto
    moreover have "truthy f_high = None" using high(2) by (auto simp: truthy_def)
    ultimately show ?thesis unfolding d(1) bf using high by (simp add: select_filter_high)
  next
    case raises
    then show ?thesis unfolding d(1) bf by simp
  qed
qed

theorem butter_filter_identity_fallback_witness:
  "butter_filter \<lparr>butter = \<lambda>n w b. Inr ([1], [1]), iirnotch = \<lambda>w q. Inr ([1], [1]),
                   filtfilt = \<lambda>ba d ax. Inl ValueError\<rparr>
     (Some [[1, 2], [3, 4]]) 250 None (Some 125) 4 0 = Some [[1, 2], [3, 4]] \<and>
   butter_filter \<lparr>butter = \<lambda>n w b. Inr ([1], [1]), iirnotch = \<lambda>w q. Inr ([1], [1]),
                   filtfilt = \<lambda>ba d ax. Inl ValueError\<rparr>
     (Some [[1, 2], [3, 4]]) 250 (Some 30) (Some 8) 4 0 = Some [[1, 2], [3, 4]] \<and>
   butter_filter \<lparr>butter = \<lambda>n w b. Inr ([1], [1]), iirnotch = \<lambda>w q. Inr ([1], [1]),
                   filtfilt = \<lambda>ba d ax. Inl ValueError\<rparr>
     (Some [[1, 2], [3, 4]]) 250 (Some 8) (Some 30) 4 0 = Some [[1, 2], [3, 4]]"
proof -
  let ?sg = "\<lparr>butter = \<lambda>n w b. Inr ([1], [1]), iirnotch = \<lambda>w q. Inr ([1], [1]),
                   filtfilt = \<lambda>ba d ax. Inl ValueError\<rparr>"
  let ?d = "[[1, 2], [3, 4]] :: array2"
  have sel: "select_filter 250 (Some 8) (Some 30) = Some (Band, Cutoffs (8 / 125) (30 / 125))"
    by (simp add: select_filter_def truthy_def)
  have r: "design_and_apply ?sg 4 Band (Cutoffs (8 / 125) (30 / 125)) ?d 0 = Inl ValueError"
    by (simp add: design_and_apply_def)
  show ?thesis
    using butter_filter_identity_fallback [of 250 "Some ?d" None "Some 125" ?sg 4 0]
      butter_filter_identity_fallback [of 250 "Some ?d" "Some 30" "Some 8" ?sg 4 0]
      butter_filter_identity_fallback [of 250 "Some ?d" "Some 8" "Some 30" ?sg 4 0] sel r
    by simp
qed

section \<open>CSP: errors\<close>

lemma length_unique: "length (unique y) = card (set y)"
  by (simp add: unique_def length_remdups_card_conv)

lemma transform_unfitted: "filters csp = None \<Longrightarrow> transform la csp X = Inl RuntimeError"
  by (simp add: transform_def)

lemma fit_not_3d: "ndim X \<noteq> 3 \<Longrightarrow> fit la csp X y = Inl ValueError"
  by (cases X) (simp_all add: fit_def)

lemma fit_not_two_classes: "card (set y) \<noteq> 2 \<Longrightarrow> fit la csp X y = Inl ValueError"
  by (cases X) (simp_all add: fit_def Let_def length_unique)

lemma fit_calls_unfitted:
  "filters csp = None \<Longrightarrow> \<not> snd (fit_calls la csp calls) \<Longrightarrow> filters (fst (fit_calls la csp calls)) = None"
proof (induction calls arbitrary: csp)
  case Nil
  then show ?case by simp
next
  case (Cons c calls)
  obtain X y where c: "c = (X, y)" by (cases c)
  show ?case using Cons unfolding c by (cases "fit la csp X y") simp_all
qed

text \<open>
  C6: on a CSP object on which no \<open>fit\<close> call has succeeded yet, \<open>transform\<close> raises
  (RuntimeError) for every input; and \<open>fit\<close> raises (ValueError) whenever \<open>X\<close> is not
  3-dimensional or \<open>y\<close> does not hold exactly two distinct labels.
\<close>

theorem csp_raises:
  "(\<not> snd (fit_calls la (CSP_init n b) calls) \<longrightarrow>
      transform la (fst (fit_calls la (CSP_init n b) calls)) X = Inl RuntimeError) \<and>
   (ndim X \<noteq> 3 \<or> card (set y) \<noteq> 2 \<longrightarrow> fit la csp X y = Inl ValueError)"
proof (intro conjI impI)
  assume "\<not> snd (fit_calls la (CSP_init n b) calls)"
  moreover have "filters (CSP_init n b) = None" by (simp add: CSP_init_def)
  ultimately have "filters (fst (fit_calls la (CSP_init n b) calls)) = None"
    by (intro fit_calls_unfitted)
  then show "transform la (fst (fit_calls la (CSP_init n b) calls)) X = Inl RuntimeError"
    by (rule transform_unfitted)
next
  assume "ndim X \<noteq> 3 \<or> card (set y) \<noteq> 2"
  then show "fit la csp X y = Inl ValueError"
    using fit_not_3d fit_not_two_classes by blast
qed

theorem csp_raises_witness:
  "transform \<lparr>eigh = \<lambda>A B. Inl LinAlgError, fit_loop = \<lambda>X y c. Inl ValueError,
               transform_4plus = \<lambda>W n k. Inl ValueError\<rparr>
     (fst (fit_calls \<lparr>eigh = \<lambda>A B. Inl LinAlgError, fit_loop = \<lambda>X y c. Inl ValueError,
               transform_4plus = \<lambda>W n k. Inl ValueError\<rparr> (CSP_init 4 ''vectorized'')
               [(A3 [[[1, 2]], [[3, 4]]], [0, 0]), (A2 [[1, 2]], [0, 1])]))
     (A2 [[1, 2], [3, 5]]) = Inl RuntimeError \<and>
   fit \<lparr>eigh = \<lambda>A B. Inl LinAlgError, fit_loop = \<lambda>X y c. Inl ValueError,
               transform_4plus = \<lambda>W n k. Inl ValueError\<rparr> (CSP_init 4 ''vectorized'')
     (A3 [[[1, 2]], [[3, 4]], [[5, 6]]]) [0, 1, 2] = Inl ValueError"
proof -
  let ?la = "\<lparr>eigh = \<lambda>A B. Inl LinAlgError, fit_loop = \<lambda>X y c. Inl ValueError,
               transform_4plus = \<lambda>W n k. Inl ValueError\<rparr>"
  let ?calls = "[(A3 [[[1, 2]], [[3, 4]]], [0, 0]), (A2 [[1, 2]], [0, 1])]"
  have a: "\<not> snd (fit_calls ?la (CSP_init 4 ''vectorized'') ?calls)"
    by (simp add: fit_def unique_def)
  have b: "card (set [0, 1, 2::int]) \<noteq> 2" by simp
  show ?thesis
    using csp_raises [where la = ?la and n = 4 and b = "''vectorized''" and calls = ?calls
                        and X = "A2 [[1, 2], [3, 5]]" and y = "[0, 1, 2]"] a b
      csp_raises [where la = ?la and X = "A3 [[[1, 2]], [[3, 4]], [[5, 6]]]" and y = "[0, 1, 2]"
                        and csp = "CSP_init 4 ''vectorized''"]
    by blast
qed

section \<open>CSP: the features of transform\<close>

lemma inner_sum:
  assumes "length xs = n" "length ys = n"
  shows "inner xs ys = (\<Sum>i<n. xs ! i * ys ! i)"
proof -
  have "sum_list (map2 (*) xs ys) = (\<Sum>i = 0..<length (map2 (*) xs ys). map2 (*) xs ys ! i)"
    by (rule sum_list_sum_nth)
  also have "\<dots> = (\<Sum>i = 0..<n. xs ! i * ys ! i)" using assms by simp
  finally show ?thesis by (simp add: inner_def lessThan_atLeast0)
qed








section \<open>CSP: the filters of the vectorized fit\<close>

lemma tabulate_nth: "i < n \<Longrightarrow> j < n \<Longrightarrow> tabulate n f ! i ! j = f i j"
  by (simp add: tabulate_def)

lemma mat_zeros_tabulate: "mat_zeros n = tabulate n (\<lambda>i j. 0)"
  by (simp add: mat_zeros_def tabulate_def list_eq_iff_nth_eq)

lemma map2_map_upt: "map2 f (map g [0..<n]) (map h [0..<n]) = map (\<lambda>i. f (g i) (h i)) [0..<n]"
  by (simp add: list_eq_iff_nth_eq)

lemma mat_add_tabulate: "mat_add (tabulate n f) (tabulate n g) = tabulate n (\<lambda>i j. f i j + g i j)"
  by (simp add: mat_add_def tabulate_def map2_map_upt)

lemma mat_div_tabulate: "mat_div (tabulate n f) k = tabulate n (\<lambda>i j. f i j / k)"
  by (simp add: mat_div_def tabulate_def comp_def)

lemma trace_tabulate: "trace (tabulate n f) = (\<Sum>c<n. f c c)"
proof -
  have "map (\<lambda>i. tabulate n f ! i ! i) [0..<n] = map (\<lambda>i. f i i) [0..<n]"
    by (simp add: tabulate_nth)
  moreover have "length (tabulate n f) = n" by (simp add: tabulate_def)
  ultimately show ?thesis
    by (simp add: trace_def interv_sum_list_conv_sum_set_nat lessThan_atLeast0)
qed

lemma gram_center:
  assumes "length t = n" "\<forall>r\<in>set t. length r = ns"
  shows "gram (center t) = tabulate n (centered_cov t)"
proof -
  have entry: "inner (center t ! i) (center t ! j) = centered_cov t i j" if "i < n" "j < n" for i j
  proof -
    have li: "length (t ! i) = ns" and lj: "length (t ! j) = ns" using assms that by auto
    have "inner (center t ! i) (center t ! j) = (\<Sum>s<ns. (center t ! i) ! s * (center t ! j) ! s)"
      using assms(1) that li lj by (intro inner_sum) (simp_all add: center_def)
    also have "\<dots> = (\<Sum>s<ns. (t ! i ! s - mean (t ! i)) * (t ! j ! s - mean (t ! j)))"
      using assms(1) that li lj by (intro sum.cong) (simp_all add: center_def)
    finally show ?thesis by (simp add: centered_cov_def li)
  qed
  have len: "length (center t) = n" using assms(1) by (simp add: center_def)
  show ?thesis
  proof (rule nth_equalityI)
    show "length (gram (center t)) = length (tabulate n (centered_cov t))"
      by (simp add: gram_def tabulate_def len)
  next
    fix i assume "i < length (gram (center t))"
    then have i: "i < n" by (simp add: gram_def len)
    show "gram (center t) ! i = tabulate n (centered_cov t) ! i"
      using i len entry by (simp add: gram_def tabulate_def list_eq_iff_nth_eq)
  qed
qed

lemma trial_cov_tabulate:
  assumes "length t = n" "\<forall>r\<in>set t. length r = ns"
  shows "trial_cov t = tabulate n (normalized_cov n t)"
  unfolding trial_cov_def Let_def gram_center[OF assms] trace_tabulate mat_div_tabulate
  by (simp add: normalized_cov_def[abs_def])

lemma foldl_cov_tabulate:
  assumes "\<forall>t\<in>set ts. length t = n \<and> (\<forall>r\<in>set t. length r = ns)"
  shows "foldl (\<lambda>C_sum trial. mat_add C_sum (trial_cov trial)) (tabulate n g) ts =
         tabulate n (\<lambda>i j. g i j + (\<Sum>t\<leftarrow>ts. normalized_cov n t i j))"
  using assms
proof (induction ts arbitrary: g)
  case Nil
  then show ?case by simp
next
  case (Cons t ts)
  have tc: "trial_cov t = tabulate n (normalized_cov n t)"
    using Cons.prems by (intro trial_cov_tabulate[where ns = ns]) auto
  have "foldl (\<lambda>C_sum trial. mat_add C_sum (trial_cov trial))
          (tabulate n (\<lambda>i j. g i j + normalized_cov n t i j)) ts =
        tabulate n (\<lambda>i j. (g i j + normalized_cov n t i j) + (\<Sum>t\<leftarrow>ts. normalized_cov n t i j))"
    using Cons.prems by (intro Cons.IH) auto
  then show ?case by (simp add: tc mat_add_tabulate add.assoc)
qed

lemma class_cov_average:
  assumes "\<forall>t\<in>set ts. length t = n \<and> (\<forall>r\<in>set t. length r = ns)"
  shows "class_cov n ts = average_cov n ts"
  unfolding class_cov_def mat_zeros_tabulate foldl_cov_tabulate[OF assms] mat_div_tabulate
  by (simp add: average_cov_def tabulate_def)




lemma select_class_subset: "set (select_class X y c) \<subseteq> set X"
  by (auto simp: select_class_def dest: set_zip_leftD)




text \<open>
  Below two components \<open>n_components // 2 = 0\<close>, and \<open>eigvecs[:, -0:]\<close> is the whole
  matrix: \<open>filters_\<close> then holds every eigenvector, not none.
\<close>

lemma fit_vectorized_below_two_components:
  assumes shape: "\<forall>t\<in>set X. length t = n \<and> (\<forall>r\<in>set t. length r = ns)"
    and len: "length y = length X" and ne: "X \<noteq> []"
    and eig: "eigh la (average_cov n (select_class X y c0))
                (mat_add (average_cov n (select_class X y c0)) (average_cov n (select_class X y c1)))
              = Inr (vals, vecs)"
    and m: "ncomp = 0 \<or> ncomp = 1"
  shows "fit_vectorized la ncomp X y [c0, c1] =
           Inr (map (column vecs) (rev (argsort (map abs vals))))"
proof -
  have nch: "(case X of [] \<Rightarrow> 0 | t # _ \<Rightarrow> length t) = n"
    using ne shape by (cases X) auto
  have cc: "class_cov n (select_class X y c) = average_cov n (select_class X y c)" for c
    using shape select_class_subset[of X y c] by (intro class_cov_average[where ns = ns]) blast
  have half: "ncomp div 2 = 0" using m by auto
  show ?thesis
    unfolding fit_vectorized_def nch Let_def half
    using len eig by (simp add: cc py_upto_def py_from_def py_bound_def)
qed

section \<open>Prediction: only the first eight channels\<close>

lemma get_last_map:
  assumes "maxlen rb2 = maxlen rb1" "idx rb2 = idx rb1" "full rb2 = full rb1"
    and "map f (buf rb2) = map f (buf rb1)"
  shows "map_option (map f) (get_last rb2 n) = map_option (map f) (get_last rb1 n)"
proof -
  have len: "length (buf rb2) = length (buf rb1)"
    using assms(4) by (metis length_map)
  have tk: "map f (take a (drop b (buf rb2))) = map f (take a (drop b (buf rb1)))" for a b
    using assms(4) by (metis take_map drop_map)
  have dr: "map f (drop b (buf rb2)) = map f (drop b (buf rb1))" for b
    using assms(4) by (metis drop_map)
  have tk0: "map f (take a (buf rb2)) = map f (take a (buf rb1))" for a
    using assms(4) by (metis take_map)
  show ?thesis
    using assms(1,2,3) len tk dr tk0
    by (simp add: get_last_def py_from_def Let_def)
qed

lemma classify_buffer: "classify la sk (w\<lparr>w_buffer := b\<rparr>) x = classify la sk w x"
  by (simp add: classify_def cong: option.case_cong sum.case_cong)

text \<open>
  C10: the outcome of a prediction tick depends on the ring buffer only through the
  first 8 channels of its rows. Two buffers in the same position (cursor, wrap flag,
  capacity) whose rows agree on the first 8 channels, whatever their channel counts and
  later channels, give the same emitted label and confidence, or both none, and the
  same last label.
\<close>

theorem prediction_ignores_channels_beyond_eight:
  assumes "w_buffer w = Some rb1"
    and "maxlen rb2 = maxlen rb1" and "idx rb2 = idx rb1" and "full rb2 = full rb1"
    and "min 8 (n_channels rb2) = min 8 (n_channels rb1)"
    and "map (take 8) (buf rb2) = map (take 8) (buf rb1)"
  shows "snd (perform_prediction sg la sk (w\<lparr>w_buffer := Some rb2\<rparr>)) =
           snd (perform_prediction sg la sk w) \<and>
         last_pred_label (fst (perform_prediction sg la sk (w\<lparr>w_buffer := Some rb2\<rparr>))) =
           last_pred_label (fst (perform_prediction sg la sk w))"
proof -
  let ?n = "nat (py_int (win_size_sec w * srate w))"
  have g: "map_option (map (take 8)) (get_last rb2 ?n) = map_option (map (take 8)) (get_last rb1 ?n)"
    using assms(2,3,4,6) by (rule get_last_map)
  show ?thesis
  proof (cases "get_last rb1 ?n")
    case None
    then have "get_last rb2 ?n = None" using g by simp
    then show ?thesis using None assms(1) by (simp add: perform_prediction_def)
  next
    case (Some r1)
    then obtain r2 where r2: "get_last rb2 ?n = Some r2" "map (take 8) r2 = map (take 8) r1"
      using g by (cases "get_last rb2 ?n") auto
    have c: "(case x of [] \<Rightarrow> min 8 (n_channels rb2) | r # _ \<Rightarrow> length r) =
             (case x of [] \<Rightarrow> min 8 (n_channels rb1) | r # _ \<Rightarrow> length r)" for x :: matrix
      using assms(5) by (cases x) simp_all
    show ?thesis using Some r2 assms(1)
      by (simp add: perform_prediction_def Let_def classify_buffer c
               split: option.splits sum.splits prod.splits)
  qed
qed

theorem prediction_ignores_channels_beyond_eight_witness:
  "snd (perform_prediction
         \<lparr>butter = \<lambda>n w b. Inl ValueError, iirnotch = \<lambda>w q. Inl ValueError,
          filtfilt = \<lambda>ba d ax. Inl ValueError\<rparr>
         \<lparr>eigh = \<lambda>A B. Inl LinAlgError, fit_loop = \<lambda>X y c. Inl ValueError,
          transform_4plus = \<lambda>W n k. Inl ValueError\<rparr>
         \<lparr>scaler_fit = \<lambda>s f. (s, None), scaler_transform = \<lambda>s f. Inr f,
          new_knn = (), new_svc = (), clf_fit = \<lambda>c f y. (c, None),
          has_predict_proba = \<lambda>c. True, predict_proba = \<lambda>c f. Inr [[1 / 4, 3 / 4]],
          predict = \<lambda>c f. Inr [1]\<rparr>
         (\<lparr>w_buffer = Some \<lparr>n_channels = 9, maxlen = 2,
                    buf = [[1, 2, 3, 4, 5, 6, 7, 8, 9], [9, 8, 7, 6, 5, 4, 3, 2, 1]],
                    idx = 0, full = True\<rparr>,
          srate = 2, band_pass = (8, 30), notch_freq = 50,
          model_csp = Some \<lparr>n_components = 2, backend = ''vectorized'',
                             filters = Some [[1, 0, 0, 0, 0, 0, 0, 0], [0, 1, 0, 0, 0, 0, 0, 0]]\<rparr>,
          model_clf = Some (), scaler = (), model_ready = True, win_size_sec = 1,
          last_pred_label = ''unknown''\<rparr>
          \<lparr>w_buffer := Some \<lparr>n_channels = 9, maxlen = 2,
                    buf = [[1, 2, 3, 4, 5, 6, 7, 8, 70], [9, 8, 7, 6, 5, 4, 3, 2, -5]],
                    idx = 0, full = True\<rparr>\<rparr>)) =
   snd (perform_prediction
         \<lparr>butter = \<lambda>n w b. Inl ValueError, iirnotch = \<lambda>w q. Inl ValueError,
          filtfilt = \<lambda>ba d ax. Inl ValueError\<rparr>
         \<lparr>eigh = \<lambda>A B. Inl LinAlgError, fit_loop = \<lambda>X y c. Inl ValueError,
          transform_4plus = \<lambda>W n k. Inl ValueError\<rparr>
         \<lparr>scaler_fit = \<lambda>s f. (s, None), scaler_transform = \<lambda>s f. Inr f,
          new_knn = (), new_svc = (), clf_fit = \<lambda>c f y. (c, None),
          has_predict_proba = \<lambda>c. True, predict_proba = \<lambda>c f. Inr [[1 / 4, 3 / 4]],
          predict = \<lambda>c f. Inr [1]\<rparr>
         \<lparr>w_buffer = Some \<lparr>n_channels = 9, maxlen = 2,
                    buf = [[1, 2, 3, 4, 5, 6, 7, 8, 9], [9, 8, 7, 6, 5, 4, 3, 2, 1]],
                    idx = 0, full = True\<rparr>,
          srate = 2, band_pass = (8, 30), notch_freq = 50,
          model_csp = Some \<lparr>n_components = 2, backend = ''vectorized'',
                             filters = Some [[1, 0, 0, 0, 0, 0, 0, 0], [0, 1, 0, 0, 0, 0, 0, 0]]\<rparr>,
          model_clf = Some (), scaler = (), model_ready = True, win_size_sec = 1,
          last_pred_label = ''unknown''\<rparr>)"
  using prediction_ignores_channels_beyond_eight
    [of "\<lparr>w_buffer = Some \<lparr>n_channels = 9, maxlen = 2,
                    buf = [[1, 2, 3, 4, 5, 6, 7, 8, 9], [9, 8, 7, 6, 5, 4, 3, 2, 1]],
                    idx = 0, full = True\<rparr>,
          srate = 2, band_pass = (8, 30), notch_freq = 50,
          model_csp = Some \<lparr>n_components = 2, backend = ''vectorized'',
                             filters = Some [[1, 0, 0, 0, 0, 0, 0, 0], [0, 1, 0, 0, 0, 0, 0, 0]]\<rparr>,
          model_clf = Some (), scaler = (), model_ready = True, win_size_sec = 1,
          last_pred_label = ''unknown''\<rparr>"
        "\<lparr>n_channels = 9, maxlen = 2,
                    buf = [[1, 2, 3, 4, 5, 6, 7, 8, 9], [9, 8, 7, 6, 5, 4, 3, 2, 1]],
                    idx = 0, full = True\<rparr>"
        "\<lparr>n_channels = 9, maxlen = 2,
                    buf = [[1, 2, 3, 4, 5, 6, 7, 8, 70], [9, 8, 7, 6, 5, 4, 3, 2, -5]],
                    idx = 0, full = True\<rparr>"
        "\<lparr>butter = \<lambda>n w b. Inl ValueError, iirnotch = \<lambda>w q. Inl ValueError,
          filtfilt = \<lambda>ba d ax. Inl ValueError\<rparr>"
        "\<lparr>eigh = \<lambda>A B. Inl LinAlgError, fit_loop = \<lambda>X y c. Inl ValueError,
          transform_4plus = \<lambda>W n k. Inl ValueError\<rparr>"
        "\<lparr>scaler_fit = \<lambda>s f. (s, None), scaler_transform = \<lambda>s f. Inr f,
          new_knn = (), new_svc = (), clf_fit = \<lambda>c f y. (c, None),
          has_predict_proba = \<lambda>c. True, predict_proba = \<lambda>c f. Inr [[1 / 4, 3 / 4]],
          predict = \<lambda>c f. Inr [1]\<rparr>"]
  by simp

section \<open>Training: what a retrain replaces\<close>





section \<open>TCP streaming: packets, dropped frames and the closed connection\<close>

lemma le32_bytes_le: "le32 (ucast w) (ucast (drop_bit 8 w)) (ucast (drop_bit 16 w)) (ucast (drop_bit 24 w)) = (w :: 32 word)"
  unfolding le32_def
proof (rule bit_word_eqI)
  fix n assume n: "n < LENGTH(32)"
  consider "n < 8" | "8 \<le> n" "n < 16" | "16 \<le> n" "n < 24" | "24 \<le> n" by linarith
  then show "bit (ucast (ucast w :: 8 word) OR push_bit 8 (ucast (ucast (drop_bit 8 w) :: 8 word)) OR
            push_bit 16 (ucast (ucast (drop_bit 16 w) :: 8 word)) OR push_bit 24 (ucast (ucast (drop_bit 24 w) :: 8 word)) :: 32 word) n = bit w n"
    using n by cases (auto simp: bit_simps)
qed

lemma unpack_items_encode: "unpack_items (concat (map bytes_le ws)) = ws"
  by (induction ws) (simp_all add: bytes_le_def le32_bytes_le)

lemma length_encode: "length (concat (map bytes_le ws)) = 4 * length ws"
  by (induction ws) (simp_all add: bytes_le_def)

lemma length_unpack_items: "length bs = 4 * n \<Longrightarrow> length (unpack_items bs) = n"
proof (induction bs arbitrary: n rule: unpack_items.induct)
  case (1 b0 b1 b2 b3 bs)
  then obtain k where "n = Suc k" by (cases n) auto
  with 1 show ?case by simp
qed auto

lemma reshape_concat:
  "length rows = r \<Longrightarrow> \<forall>row\<in>set rows. length row = c \<Longrightarrow> reshape r c (concat rows) = rows"
proof (induction rows arbitrary: r)
  case Nil
  then show ?case by (simp add: reshape_def windows_def)
next
  case (Cons row rows)
  then obtain k where k: "r = Suc k" "length rows = k" by (cases r) auto
  have "windows (Suc k) c (row @ concat rows) = row # windows k c (concat rows)"
    using Cons.prems(2) by (intro windows_Suc_append) simp
  then show ?case using Cons k by (simp add: reshape_def)
qed

lemma reshape_shape:
  assumes "length vals = r * c"
  shows "length (reshape r c vals) = r \<and> (\<forall>row\<in>set (reshape r c vals). length row = c)"
  using assms window_length[of r c vals] by (auto simp: reshape_def length_windows)

lemma array_size_shape:
  assumes "length d = r" "\<forall>row\<in>set d. length row = c"
  shows "array_size d = r * c"
proof -
  have "map length d = map (\<lambda>x. c) d" using assms(2) by simp
  then have "map length d = replicate r c" using assms(1) by (simp add: map_replicate_const)
  then show ?thesis by (simp add: array_size_def length_concat sum_list_replicate)
qed

lemma bufsize_1440: "bufsize = 1440"
  by (simp add: bufsize_def n_ch_def pack_points_def)

lemma tcp_pass_packet:
  assumes "length bs = 1440"
  shows "tcp_pass (Received bs) = Emit (reshape 40 9 (unpack_items bs))"
proof -
  have l: "length (unpack_items bs) = 40 * 9" using assms by (intro length_unpack_items) simp
  have "array_size (reshape 40 9 (unpack_items bs)) = 40 * 9"
    using reshape_shape[OF l] by (intro array_size_shape) auto
  moreover have "bs \<noteq> []" using assms by auto
  ultimately show ?thesis using assms
    by (simp add: tcp_pass_def bufsize_1440 unpack_def n_ch_def pack_points_def)
qed

text \<open>
  C4: in tcp mode a packet is \<open>n_ch * pack_points * 4 = 9 * 40 * 4 = 1440\<close> bytes. A
  received buffer of exactly 1440 bytes is decoded as 360 little-endian 32-bit values
  into a row-major array of 40 rows of 9 and emitted, and the loop goes on; decoding
  the encoding of a 40 by 9 array gives that array back. A non-empty buffer of any other
  length is dropped: nothing is emitted or raised and the loop goes on with the next
  pass. An empty buffer ends the loop with RuntimeError, whatever would have followed.
\<close>

theorem tcp_packet_decoding:
  "(length bs = 1440 \<longrightarrow>
      tcp_pass (Received bs) = Emit (reshape 40 9 (unpack_items bs)) \<and>
      length (reshape 40 9 (unpack_items bs)) = 40 \<and>
      (\<forall>row\<in>set (reshape 40 9 (unpack_items bs)). length row = 9) \<and>
      tcp_loop (Received bs # evs) =
        (reshape 40 9 (unpack_items bs) # fst (tcp_loop evs), snd (tcp_loop evs))) \<and>
   (length rows = 40 \<and> (\<forall>row\<in>set rows. length row = 9) \<longrightarrow>
      length (encode_packet rows) = 1440 \<and>
      tcp_pass (Received (encode_packet rows)) = Emit rows) \<and>
   (bs \<noteq> [] \<and> length bs \<noteq> 1440 \<longrightarrow>
      tcp_pass (Received bs) = Continue \<and> tcp_loop (Received bs # evs) = tcp_loop evs) \<and>
   tcp_pass (Received []) = Fatal RuntimeError \<and>
   tcp_loop (Received [] # evs) = ([], Some RuntimeError) \<and>
   bufsize = n_ch * pack_points * 4 \<and> n_ch = 9 \<and> pack_points = 40"
proof (intro conjI impI)
  assume l: "length bs = 1440"
  show p: "tcp_pass (Received bs) = Emit (reshape 40 9 (unpack_items bs))"
    using l by (rule tcp_pass_packet)
  have lu: "length (unpack_items bs) = 40 * 9" using l by (intro length_unpack_items) simp
  show "length (reshape 40 9 (unpack_items bs)) = 40" using reshape_shape[OF lu] by simp
  show "\<forall>row\<in>set (reshape 40 9 (unpack_items bs)). length row = 9"
    using reshape_shape[OF lu] by simp
  show "tcp_loop (Received bs # evs) =
        (reshape 40 9 (unpack_items bs) # fst (tcp_loop evs), snd (tcp_loop evs))"
    using p by simp
next
  assume r: "length rows = 40 \<and> (\<forall>row\<in>set rows. length row = 9)"
  then have "array_size rows = 40 * 9" by (intro array_size_shape) auto
  then have lc: "length (concat rows) = 360" by (simp add: array_size_def)
  show le: "length (encode_packet rows) = 1440"
    by (simp add: encode_packet_def length_encode lc)
  have "unpack_items (encode_packet rows) = concat rows"
    by (simp add: encode_packet_def unpack_items_encode)
  moreover have "reshape 40 9 (concat rows) = rows" using r by (intro reshape_concat) auto
  ultimately show "tcp_pass (Received (encode_packet rows)) = Emit rows"
    using tcp_pass_packet[OF le] by simp
next
  assume b: "bs \<noteq> [] \<and> length bs \<noteq> 1440"
  then show c: "tcp_pass (Received bs) = Continue" by (simp add: tcp_pass_def bufsize_1440)
  show "tcp_loop (Received bs # evs) = tcp_loop evs" using c by simp
next
  show f: "tcp_pass (Received []) = Fatal RuntimeError" by (simp add: tcp_pass_def)
  show "tcp_loop (Received [] # evs) = ([], Some RuntimeError)" using f by simp
  show "bufsize = n_ch * pack_points * 4" by (simp add: bufsize_def)
  show "n_ch = 9" by (simp add: n_ch_def)
  show "pack_points = 40" by (simp add: pack_points_def)
qed

theorem tcp_packet_decoding_witness:
  "tcp_pass (Received (encode_packet (replicate 40 (replicate 9 1)))) = Emit (replicate 40 (replicate 9 1)) \<and>
   tcp_pass (Received (replicate 1439 0)) = Continue \<and>
   tcp_loop [Received (replicate 1441 0), Received []] = ([], Some RuntimeError)"
  using tcp_packet_decoding [of "replicate 1439 0" "[]" "replicate 40 (replicate 9 1)"]
    tcp_packet_decoding [of "replicate 1441 0" "[Received []]"]
    tcp_packet_decoding [of "[]" "[]"]
  by simp

end
